theory Spec2Isabelle
  imports
    Main
    "HOL-Library.Word"
    "HOL-Library.Char_ord"
    "HOL-Library.List_Lexorder"
    "HOL-Library.Multiset"
    "HOL-Library.Sublist"
    "HOL-Library.Log_Nat"
begin

section \<open>The Dlib ImageNet dataset preprocessor\<close>

text \<open>
  A shallow embedding of the program: the directory scanner \<open>get_imagenet_listing\<close>, the
  loader \<open>load_and_resize_image\<close>, the builder \<open>create_imagenet_dataset\<close> and the splitter
  \<open>load_stable_imagenet_1k\<close>. C++ exceptions are values of \<open>error\<close> on the left of a sum;
  \<open>size_t\<close> and \<open>unsigned long\<close> are 64-bit, written as \<open>nat\<close> with the wrap-around
  \<open>mod 2 ^ 64\<close> (\<open>u64\<close>) where the code does arithmetic on them; a \<open>double\<close> is the
  rational number it holds, and an operation on doubles rounds its exact result to the
  nearest double, ties to even (\<open>to_double\<close>). What the program
  obtains from the file system and from the dlib library (directory contents, image
  decoding, resampling, the binary encoding of \<open>serialize\<close>, \<open>std::shuffle\<close>) is a
  parameter of the model.
\<close>

subsection \<open>Errors and data\<close>

text \<open>
  The exceptions the program can meet: \<open>directory::dir_not_found\<close>, \<open>std::out_of_range\<close>,
  \<open>image_load_error\<close>, \<open>dlib::error\<close> with its message, \<open>serialization_error\<close>,
  \<open>std::length_error\<close>; and
  \<open>undefined_behaviour\<close> for a call outside a library precondition or a vector read out of
  range, where C++ promises nothing.
\<close>

datatype error =
    dir_not_found
  | out_of_range
  | image_load_error
  | dlib_error string
  | serialization_error
  | length_error
  | undefined_behaviour

type_synonym byte = "8 word"

record rgb_pixel =
  red :: byte
  green :: byte
  blue :: byte

text \<open>\<open>matrix<rgb_pixel>\<close>: \<open>nr()\<close>, \<open>nc()\<close> (both \<open>long\<close>) and the pixels in row-major order.\<close>

record matrix =
  nr :: int
  nc :: int
  pixels :: "rgb_pixel list"

record imagenet_info =
  filename :: string
  label :: string
  numeric_label :: nat

record imagenet_dataset =
  images :: "matrix list"
  labels :: "string list"
  numeric_labels :: "nat list"

text \<open>
  What \<open>dlib::directory\<close> and \<open>dlib::file\<close> give the scanner: \<open>name()\<close>, the full path (a
  \<open>file\<close> converts to \<open>std::string\<close> as its full name), \<open>get_files()\<close> and \<open>get_dirs()\<close>.
\<close>

record "file" =
  file_name :: string
  file_full_name :: string

datatype directory =
  Directory (dir_name: string) (dir_full_name: string) (get_files: "file list")
    (get_dirs: "directory list")

subsection \<open>Unsigned 64-bit arithmetic and strings\<close>

text \<open>The value that an \<open>unsigned long\<close> or \<open>size_t\<close> holds after an operation.\<close>

definition u64 :: "nat \<Rightarrow> nat" where
  "u64 n = n mod 2 ^ 64"

definition npos :: nat where
  "npos = 2 ^ 64 - 1"

text \<open>\<open>std::string::find(char)\<close>: the index of the first occurrence, or \<open>npos\<close>.\<close>

fun find_from :: "string \<Rightarrow> char \<Rightarrow> nat \<Rightarrow> nat" where
  "find_from [] c i = npos"
| "find_from (x # xs) c i = (if x = c then i else find_from xs c (Suc i))"

definition find_char :: "string \<Rightarrow> char \<Rightarrow> nat" where
  "find_char s c = find_from s c 0"

text \<open>\<open>std::string::substr(pos)\<close>: throws \<open>std::out_of_range\<close> when \<open>pos > size()\<close>.\<close>

definition substr :: "string \<Rightarrow> nat \<Rightarrow> error + string" where
  "substr s pos = (if pos > length s then Inl out_of_range else Inr (drop pos s))"

text \<open>
  \<open>dlib::tolower\<close> applies \<open>std::tolower\<close> to each character; in the C locale that maps
  \<open>A\<close>..\<open>Z\<close> (65..90) to \<open>a\<close>..\<open>z\<close> and leaves every other character.
\<close>

definition tolower_char :: "char \<Rightarrow> char" where
  "tolower_char c =
     (let n = (of_char c :: nat) in if 65 \<le> n \<and> n \<le> 90 then char_of (n + 32) else c)"

definition tolower :: "string \<Rightarrow> string" where
  "tolower s = map tolower_char s"

subsection \<open>Directory scanner\<close>

definition extract_desc_class :: "string \<Rightarrow> error + string" where
  "extract_desc_class dir_name' =
     (let underscore_pos = find_char dir_name' (CHR ''_'')
      in substr dir_name' (u64 (underscore_pos + 1)))"

text \<open>
  The test of the inner loop,
  \<open>name.size() > 4 && tolower(name.substr(name.size() - 4)) == ".jpg"\<close>.
\<close>

definition jpg_test :: "string \<Rightarrow> error + bool" where
  "jpg_test name =
     (if length name > 4
      then (case substr name (length name - 4) of
              Inl e \<Rightarrow> Inl e
            | Inr ext \<Rightarrow> Inr (tolower ext = ''.jpg''))
      else Inr False)"

text \<open>
  The inner loop over \<open>subdir.get_files()\<close>. The state is \<open>temp\<close> and \<open>results\<close>:
  \<open>temp.filename\<close> is overwritten and \<open>temp\<close> is pushed for every file that passes.
\<close>

fun scan_files ::
  "file list \<Rightarrow> imagenet_info \<times> imagenet_info list \<Rightarrow>
   error + (imagenet_info \<times> imagenet_info list)" where
  "scan_files [] st = Inr st"
| "scan_files (image_file # rest) (temp, results) =
     (case jpg_test (file_name image_file) of
        Inl e \<Rightarrow> Inl e
      | Inr True \<Rightarrow>
          (let temp' = temp\<lparr>filename := file_full_name image_file\<rparr>
           in scan_files rest (temp', results @ [temp']))
      | Inr False \<Rightarrow> scan_files rest (temp, results))"

text \<open>
  The outer loop over the sorted subdirectories; \<open>++temp.numeric_label\<close> on an
  \<open>unsigned long\<close> wraps at \<open>2 ^ 64\<close> (\<open>u64\<close>).
\<close>

fun scan_dirs ::
  "directory list \<Rightarrow> imagenet_info \<times> imagenet_info list \<Rightarrow>
   error + (imagenet_info \<times> imagenet_info list)" where
  "scan_dirs [] st = Inr st"
| "scan_dirs (subdir # rest) (temp, results) =
     (case extract_desc_class (dir_name subdir) of
        Inl e \<Rightarrow> Inl e
      | Inr l \<Rightarrow>
          (case scan_files (get_files subdir) (temp\<lparr>label := l\<rparr>, results) of
             Inl e \<Rightarrow> Inl e
           | Inr (temp', results') \<Rightarrow>
               scan_dirs rest
                 (temp'\<lparr>numeric_label := u64 (numeric_label temp' + 1)\<rparr>, results')))"

text \<open>
  \<open>std::sort\<close> with the comparison \<open>a.name() < b.name()\<close> (\<open>std::string\<close> compares bytes
  lexicographically, a proper prefix first): the names in one directory are distinct, so
  every sorting algorithm returns the list that \<open>sort_key\<close> returns.
\<close>

definition sort_subdirs :: "directory list \<Rightarrow> directory list" where
  "sort_subdirs subdirs = sort_key dir_name subdirs"

text \<open>
  The environment of a run: \<open>directory_at\<close> is the constructor \<open>directory(path)\<close>, which
  throws \<open>dir_not_found\<close>; \<open>load_image\<close> and \<open>resize_image\<close> are dlib's; \<open>can_open\<close> says
  whether \<open>serialize(path)\<close> can open the path for writing.
\<close>

datatype interpolation = interpolate_nearest_neighbor | interpolate_bilinear | interpolate_quadratic

record env =
  directory_at :: "string \<Rightarrow> error + directory"
  load_image :: "string \<Rightarrow> error + matrix"
  resize_image :: "matrix \<Rightarrow> matrix \<Rightarrow> interpolation \<Rightarrow> matrix"
  can_open :: "string \<Rightarrow> bool"

definition get_imagenet_listing :: "env \<Rightarrow> string \<Rightarrow> error + imagenet_info list" where
  "get_imagenet_listing ev images_folder =
     (case directory_at ev images_folder of
        Inl e \<Rightarrow> Inl e
      | Inr root_dir \<Rightarrow>
          (let temp = \<lparr>filename = [], label = [], numeric_label = 0\<rparr>;
               subdirs = sort_subdirs (get_dirs root_dir)
           in case scan_dirs subdirs (temp, []) of
                Inl e \<Rightarrow> Inl e
              | Inr (temp', results) \<Rightarrow> Inr results))"

subsection \<open>Image loader and resizer\<close>

text \<open>
  \<open>matrix<rgb_pixel> resized(rows, cols)\<close>: dlib requires \<open>rows >= 0 && cols >= 0\<close>; the
  pixels are not initialised before \<open>resize_image\<close> writes them (zero here).
  \<open>assign_image(dest, src)\<close> makes \<open>dest\<close> a copy of \<open>src\<close>.
\<close>

definition new_matrix :: "int \<Rightarrow> int \<Rightarrow> matrix" where
  "new_matrix rows cols =
     \<lparr>nr = rows, nc = cols,
      pixels = replicate (nat (rows * cols)) \<lparr>red = 0, green = 0, blue = 0\<rparr>\<rparr>"

definition assign_image :: "matrix \<Rightarrow> matrix \<Rightarrow> matrix" where
  "assign_image dest src = src"

definition load_and_resize_image :: "env \<Rightarrow> string \<Rightarrow> int \<Rightarrow> int \<Rightarrow> error + matrix" where
  "load_and_resize_image ev filename' rows cols =
     (case load_image ev filename' of
        Inl e \<Rightarrow> Inl e
      | Inr img \<Rightarrow>
          if nr img \<noteq> rows \<or> nc img \<noteq> cols
          then (if rows < 0 \<or> cols < 0 then Inl undefined_behaviour
                else (let resized = new_matrix rows cols;
                          resized' = resize_image ev img resized interpolate_bilinear
                      in Inr (assign_image img resized')))
          else Inr img)"

subsection \<open>Serialization\<close>

text \<open>
  The bytes that dlib's \<open>serialize\<close> writes for each of the three vector types, and what
  \<open>deserialize\<close> reads back from the front of a stream (the value and the rest of the
  stream, or \<open>None\<close> where it throws \<open>serialization_error\<close>). The files of the run are a
  map from paths to contents.
\<close>

record codec =
  serialize_images :: "matrix list \<Rightarrow> byte list"
  serialize_labels :: "string list \<Rightarrow> byte list"
  serialize_numeric_labels :: "nat list \<Rightarrow> byte list"
  deserialize_images :: "byte list \<Rightarrow> (matrix list \<times> byte list) option"
  deserialize_labels :: "byte list \<Rightarrow> (string list \<times> byte list) option"
  deserialize_numeric_labels :: "byte list \<Rightarrow> (nat list \<times> byte list) option"

type_synonym store = "string \<rightharpoonup> byte list"

text \<open>
  \<open>serialize(output_file) << dataset.images << dataset.labels << dataset.numeric_labels\<close>
\<close>

definition dataset_bytes :: "codec \<Rightarrow> imagenet_dataset \<Rightarrow> byte list" where
  "dataset_bytes cd dataset =
     serialize_images cd (images dataset) @ serialize_labels cd (labels dataset)
       @ serialize_numeric_labels cd (numeric_labels dataset)"

definition serialize_dataset ::
  "env \<Rightarrow> codec \<Rightarrow> string \<Rightarrow> imagenet_dataset \<Rightarrow> store \<Rightarrow> (error + unit) \<times> store" where
  "serialize_dataset ev cd output_file dataset st =
     (if can_open ev output_file
      then (Inr (), st(output_file \<mapsto> dataset_bytes cd dataset))
      else (Inl serialization_error, st))"

text \<open>
  \<open>deserialize(dataset_file) >> dataset.images >> dataset.labels >> dataset.numeric_labels\<close>
\<close>

definition deserialize_dataset :: "codec \<Rightarrow> store \<Rightarrow> string \<Rightarrow> error + imagenet_dataset" where
  "deserialize_dataset cd st dataset_file =
     (case st dataset_file of
        None \<Rightarrow> Inl serialization_error
      | Some bytes \<Rightarrow>
          (case deserialize_images cd bytes of
             None \<Rightarrow> Inl serialization_error
           | Some (imgs, rest1) \<Rightarrow>
               (case deserialize_labels cd rest1 of
                  None \<Rightarrow> Inl serialization_error
                | Some (lbls, rest2) \<Rightarrow>
                    (case deserialize_numeric_labels cd rest2 of
                       None \<Rightarrow> Inl serialization_error
                     | Some (nums, rest3) \<Rightarrow>
                         Inr \<lparr>images = imgs, labels = lbls, numeric_labels = nums\<rparr>))))"

subsection \<open>Dataset builder\<close>

text \<open>
  One pass through the body of the ingestion loop: the \<open>try\<close> block pushes to the three
  vectors after a successful load; the \<open>catch\<close> block only prints.
\<close>

definition ingest_step :: "env \<Rightarrow> int \<Rightarrow> int \<Rightarrow> imagenet_info \<Rightarrow> imagenet_dataset \<Rightarrow> imagenet_dataset" where
  "ingest_step ev resize_rows resize_cols info dataset =
     (case load_and_resize_image ev (filename info) resize_rows resize_cols of
        Inr img \<Rightarrow>
          dataset\<lparr>images := images dataset @ [img],
                  labels := labels dataset @ [label info],
                  numeric_labels := numeric_labels dataset @ [numeric_label info]\<rparr>
      | Inl e \<Rightarrow> dataset)"

text \<open>
  \<open>for (size_t i = 0; i < image_listing.size() && !g_terminate_flag.load(); ++i)\<close>.
  The flag is set by the interrupt handler at a moment the program does not choose;
  \<open>terminate_flag i\<close> is the value that the load before pass \<open>i\<close> reads.
\<close>

function ingest_loop ::
  "env \<Rightarrow> (nat \<Rightarrow> bool) \<Rightarrow> int \<Rightarrow> int \<Rightarrow> imagenet_info list \<Rightarrow> nat \<Rightarrow>
   imagenet_dataset \<Rightarrow> imagenet_dataset" where
  "ingest_loop ev terminate_flag resize_rows resize_cols image_listing i dataset =
     (if i < length image_listing \<and> \<not> terminate_flag i
      then ingest_loop ev terminate_flag resize_rows resize_cols image_listing (Suc i)
             (ingest_step ev resize_rows resize_cols (image_listing ! i) dataset)
      else dataset)"
  by pat_completeness auto
termination
  by (relation "measure (\<lambda>(ev, tf, r, c, image_listing, i, dataset). length image_listing - i)")
    auto

declare ingest_loop.simps [simp del]

definition empty_dataset :: imagenet_dataset where
  "empty_dataset = \<lparr>images = [], labels = [], numeric_labels = []\<rparr>"

definition create_imagenet_dataset ::
  "env \<Rightarrow> codec \<Rightarrow> (nat \<Rightarrow> bool) \<Rightarrow> string \<Rightarrow> string \<Rightarrow> int \<Rightarrow> int \<Rightarrow> store \<Rightarrow>
   (error + unit) \<times> store" where
  "create_imagenet_dataset ev cd terminate_flag images_folder output_file resize_rows resize_cols st =
     (case get_imagenet_listing ev images_folder of
        Inl e \<Rightarrow> (Inl e, st)
      | Inr image_listing \<Rightarrow>
          if image_listing = []
          then (Inl (dlib_error (''No images found in directory: '' @ images_folder)), st)
          else (let dataset = ingest_loop ev terminate_flag resize_rows resize_cols
                                image_listing 0 empty_dataset
                in serialize_dataset ev cd output_file dataset st))"

subsection \<open>Dataset splitter\<close>

record split_result =
  training_images :: "matrix list"
  training_labels :: "nat list"
  testing_images :: "matrix list"
  testing_labels :: "nat list"

definition empty_split :: split_result where
  "empty_split =
     \<lparr>training_images = [], training_labels = [], testing_images = [], testing_labels = []\<rparr>"

text \<open>
  The splitting loop. \<open>dataset.images[idx]\<close> and \<open>dataset.numeric_labels[idx]\<close> are
  unchecked vector reads: out of range they are undefined behaviour.
\<close>

function split_loop ::
  "imagenet_dataset \<Rightarrow> nat list \<Rightarrow> nat \<Rightarrow> nat \<Rightarrow> split_result \<Rightarrow> error + split_result" where
  "split_loop dataset indices split_point i out =
     (if i < length indices
      then (let idx = indices ! i
            in if idx < length (images dataset) \<and> idx < length (numeric_labels dataset)
               then split_loop dataset indices split_point (Suc i)
                      (if i < split_point
                       then out\<lparr>training_images := training_images out @ [images dataset ! idx],
                                training_labels :=
                                  training_labels out @ [numeric_labels dataset ! idx]\<rparr>
                       else out\<lparr>testing_images := testing_images out @ [images dataset ! idx],
                                testing_labels :=
                                  testing_labels out @ [numeric_labels dataset ! idx]\<rparr>)
               else Inl undefined_behaviour)
      else Inr out)"
  by pat_completeness auto
termination
  by (relation "measure (\<lambda>(dataset, indices, split_point, i, out). length indices - i)") auto

declare split_loop.simps [simp del]

subsection \<open>The split point in double arithmetic\<close>

text \<open>
  IEEE 754 binary64 with round to nearest, ties to even. \<open>exponent x\<close> is the \<open>e\<close> with
  \<open>2 ^ e \<le> |x| < 2 ^ (e + 1)\<close>; a double with that exponent is a multiple of
  \<open>2 ^ (e - 52)\<close>, and of \<open>2 ^ (- 1074)\<close> in the subnormal range. \<open>to_double x\<close> is the
  double that a conversion or an operation with exact result \<open>x\<close> yields. A result beyond
  the largest double stays a number of at least \<open>2 ^ 1024\<close> here, where the machine has
  infinity; the conversion to \<open>size_t\<close> below is undefined for both. \<open>test_fraction\<close> is
  a finite double.
\<close>

definition exponent :: "rat \<Rightarrow> int" where
  "exponent x =
     (if 1 \<le> \<bar>x\<bar> then int (floorlog 2 (nat \<lfloor>\<bar>x\<bar>\<rfloor>)) - 1
      else - int (floorlog 2 (nat (\<lceil>1 / \<bar>x\<bar>\<rceil> - 1))))"

definition round_half_even :: "rat \<Rightarrow> int" where
  "round_half_even m =
     (let f = \<lfloor>m\<rfloor>; r = m - of_int f
      in if r < 1 / 2 then f else if 1 / 2 < r then f + 1 else if even f then f else f + 1)"

definition to_double :: "rat \<Rightarrow> rat" where
  "to_double x =
     (if x = 0 then 0
      else (let e = max (exponent x) (- 1022); ulp = 2 powi (e - 52)
            in of_int (round_half_even (x / ulp)) * ulp))"

text \<open>
  \<open>static_cast<size_t>(dataset.images.size() * (1.0 - test_fraction))\<close>: the size is
  converted to \<open>double\<close>, the subtraction and the product are rounded, and the cast
  truncates towards zero; it is undefined when the truncated value is not a \<open>size_t\<close>.
\<close>

definition split_point_of :: "nat \<Rightarrow> rat \<Rightarrow> error + nat" where
  "split_point_of n test_fraction =
     (let product = to_double (to_double (of_nat n) * to_double (1 - test_fraction))
      in if product \<le> - 1 \<or> 2 ^ 64 \<le> product then Inl undefined_behaviour
         else Inr (nat (if 0 \<le> product then \<lfloor>product\<rfloor> else \<lceil>product\<rceil>)))"

text \<open>
  \<open>std::vector::reserve(n)\<close> throws \<open>std::length_error\<close> when \<open>n > max_size()\<close>;
  \<open>max_size()\<close> of the image vectors and of the label vectors are parameters.
\<close>

record max_sizes =
  images_max_size :: nat
  labels_max_size :: nat

definition reserve :: "nat \<Rightarrow> nat \<Rightarrow> error + unit" where
  "reserve max_size n = (if n > max_size then Inl length_error else Inr ())"

text \<open>
  \<open>shuffle\<close> is \<open>std::shuffle\<close> with the generator seeded from \<open>std::random_device\<close>.
  The four outputs are cleared, space is reserved for them
  (\<open>dataset.images.size() - split_point\<close> is a \<open>size_t\<close> subtraction and wraps), and the
  loop fills them.
\<close>

definition load_stable_imagenet_1k ::
  "codec \<Rightarrow> (nat list \<Rightarrow> nat list) \<Rightarrow> max_sizes \<Rightarrow> store \<Rightarrow> string \<Rightarrow> rat \<Rightarrow>
   error + split_result" where
  "load_stable_imagenet_1k cd shuffle ms st dataset_file test_fraction =
     (case deserialize_dataset cd st dataset_file of
        Inl e \<Rightarrow> Inl e
      | Inr dataset \<Rightarrow>
          (let indices = shuffle [0 ..< length (images dataset)]
           in case split_point_of (length (images dataset)) test_fraction of
                Inl e \<Rightarrow> Inl e
              | Inr split_point \<Rightarrow>
                  (let rest = u64 (length (images dataset) + 2 ^ 64 - split_point)
                   in case reserve (images_max_size ms) split_point of
                        Inl e \<Rightarrow> Inl e
                      | Inr u1 \<Rightarrow>
                   (case reserve (labels_max_size ms) split_point of
                        Inl e \<Rightarrow> Inl e
                      | Inr u2 \<Rightarrow>
                   (case reserve (images_max_size ms) rest of
                        Inl e \<Rightarrow> Inl e
                      | Inr u3 \<Rightarrow>
                   (case reserve (labels_max_size ms) rest of
                        Inl e \<Rightarrow> Inl e
                      | Inr u4 \<Rightarrow>
                          split_loop dataset indices split_point 0 empty_split))))))"

subsection \<open>Notions that the properties are stated with\<close>

text \<open>
  The label that the scanner stores for a class directory (\<open>extract_desc_class\<close> never
  throws, see \<open>extract_desc_class_label\<close>).
\<close>

definition class_label :: "string \<Rightarrow> string" where
  "class_label name = (case extract_desc_class name of Inr l \<Rightarrow> l | Inl e \<Rightarrow> [])"

text \<open>
  The zero-based rank of a subdirectory in ascending order of names: the number of
  subdirectories whose name is smaller.
\<close>

definition zero_based_rank :: "directory list \<Rightarrow> directory \<Rightarrow> nat" where
  "zero_based_rank subdirs d = length (filter (\<lambda>d'. dir_name d' < dir_name d) subdirs)"

text \<open>
  The records of one class directory: one for each file that passes the test of the inner
  loop, in the order of \<open>get_files\<close>, with textual label \<open>l\<close> and numeric label \<open>n\<close>.
\<close>

definition class_records :: "directory \<Rightarrow> string \<Rightarrow> nat \<Rightarrow> imagenet_info list" where
  "class_records subdir l n =
     map (\<lambda>f. \<lparr>filename = file_full_name f, label = l, numeric_label = n\<rparr>)
       (filter (\<lambda>f. jpg_test (file_name f) = Inr True) (get_files subdir))"

text \<open>A name ends with \<open>.jpg\<close>, compared without regard to case.\<close>

definition ends_with_jpg_ci :: "string \<Rightarrow> bool" where
  "ends_with_jpg_ci name = suffix ''.jpg'' (tolower name)"

text \<open>The value of \<open>temp\<close> when the inner loop has gone through the files.\<close>

fun last_temp :: "file list \<Rightarrow> imagenet_info \<Rightarrow> imagenet_info" where
  "last_temp [] temp = temp"
| "last_temp (f # fs) temp =
     last_temp fs
       (if jpg_test (file_name f) = Inr True then temp\<lparr>filename := file_full_name f\<rparr>
        else temp)"

text \<open>The dataset that the ingestion loop has built when it has gone through \<open>infos\<close>.\<close>

definition ingested :: "env \<Rightarrow> int \<Rightarrow> int \<Rightarrow> imagenet_info list \<Rightarrow> imagenet_dataset" where
  "ingested ev resize_rows resize_cols infos =
     foldl (\<lambda>dataset info. ingest_step ev resize_rows resize_cols info dataset)
       empty_dataset infos"

subsection \<open>What the properties assume of dlib\<close>

text \<open>
  What dlib documents for \<open>resize_image(in_img, out_img, interp)\<close>: the size of \<open>out_img\<close>
  is not modified.
\<close>

definition resize_keeps_size :: "env \<Rightarrow> bool" where
  "resize_keeps_size ev \<longleftrightarrow>
     (\<forall>img out interp. nr (resize_image ev img out interp) = nr out \<and>
                       nc (resize_image ev img out interp) = nc out)"

text \<open>
  What dlib's \<open>serialize\<close> and \<open>deserialize\<close> of one object promise each other:
  deserializing from a stream that starts with the bytes of an object yields the object
  and leaves the stream after those bytes.
\<close>

definition codec_round_trips :: "codec \<Rightarrow> bool" where
  "codec_round_trips cd \<longleftrightarrow>
     (\<forall>imgs rest. deserialize_images cd (serialize_images cd imgs @ rest) = Some (imgs, rest)) \<and>
     (\<forall>lbls rest. deserialize_labels cd (serialize_labels cd lbls @ rest) = Some (lbls, rest)) \<and>
     (\<forall>nums rest. deserialize_numeric_labels cd (serialize_numeric_labels cd nums @ rest)
                    = Some (nums, rest))"

subsection \<open>Example inputs\<close>

text \<open>
  A tree with four class directories, listed out of order: one has no image, one has no
  underscore in its name, one holds a file that does not decode.
\<close>

definition example_image :: matrix where
  "example_image =
     \<lparr>nr = 1, nc = 2,
      pixels = [\<lparr>red = 1, green = 2, blue = 3\<rparr>, \<lparr>red = 4, green = 5, blue = 6\<rparr>]\<rparr>"

definition example_root :: directory where
  "example_root =
     Directory ''imgs'' ''imgs'' []
       [Directory ''n002_dog'' ''imgs/n002_dog''
          [\<lparr>file_name = ''d1.jpg'', file_full_name = ''imgs/n002_dog/d1.jpg''\<rparr>,
           \<lparr>file_name = ''d2.Jpg'', file_full_name = ''imgs/n002_dog/d2.Jpg''\<rparr>] [],
        Directory ''n0015_misc'' ''imgs/n0015_misc''
          [\<lparr>file_name = ''notes.txt'', file_full_name = ''imgs/n0015_misc/notes.txt''\<rparr>] [],
        Directory ''birds'' ''imgs/birds''
          [\<lparr>file_name = ''b1.jpg'', file_full_name = ''imgs/birds/b1.jpg''\<rparr>] [],
        Directory ''n001_cat'' ''imgs/n001_cat''
          [\<lparr>file_name = ''c1.JPG'', file_full_name = ''imgs/n001_cat/c1.JPG''\<rparr>,
           \<lparr>file_name = ''bad.jpg'', file_full_name = ''imgs/n001_cat/bad.jpg''\<rparr>,
           \<lparr>file_name = ''c2.jpeg'', file_full_name = ''imgs/n001_cat/c2.jpeg''\<rparr>] []]"

definition example_env :: env where
  "example_env =
     \<lparr>directory_at = (\<lambda>p. if p = ''imgs'' then Inr example_root else Inl dir_not_found),
      load_image = (\<lambda>p. if p = ''imgs/n001_cat/bad.jpg'' then Inl image_load_error
                          else Inr example_image),
      resize_image = (\<lambda>img out interp. out),
      can_open = (\<lambda>p. p = ''out.dat'')\<rparr>"

definition example_listing :: "imagenet_info list" where
  "example_listing =
     [\<lparr>filename = ''imgs/birds/b1.jpg'', label = ''birds'', numeric_label = 0\<rparr>,
      \<lparr>filename = ''imgs/n001_cat/c1.JPG'', label = ''cat'', numeric_label = 2\<rparr>,
      \<lparr>filename = ''imgs/n001_cat/bad.jpg'', label = ''cat'', numeric_label = 2\<rparr>,
      \<lparr>filename = ''imgs/n002_dog/d1.jpg'', label = ''dog'', numeric_label = 3\<rparr>,
      \<lparr>filename = ''imgs/n002_dog/d2.Jpg'', label = ''dog'', numeric_label = 3\<rparr>]"

text \<open>A class directory whose only file is named \<open>.jpg\<close>.\<close>

definition dot_jpg_file :: "file" where
  "dot_jpg_file = \<lparr>file_name = ''.jpg'', file_full_name = ''imgs/n001_cat/.jpg''\<rparr>"

definition dot_jpg_env :: env where
  "dot_jpg_env =
     \<lparr>directory_at =
        (\<lambda>p. Inr (Directory ''imgs'' ''imgs'' []
                    [Directory ''n001_cat'' ''imgs/n001_cat'' [dot_jpg_file] []])),
      load_image = (\<lambda>p. Inr example_image),
      resize_image = (\<lambda>img out interp. out),
      can_open = (\<lambda>p. True)\<rparr>"

subsection \<open>An example encoding\<close>

text \<open>
  A small self-delimiting encoding that meets \<open>codec_round_trips\<close>, for the examples: a
  natural number \<open>n\<close> is \<open>n\<close> bytes \<open>1\<close> and a byte \<open>0\<close>, a list is its length and its
  elements. It is not dlib's encoding.
\<close>

definition enc_nat :: "nat \<Rightarrow> byte list" where
  "enc_nat n = replicate n 1 @ [0]"

fun dec_nat :: "byte list \<Rightarrow> (nat \<times> byte list) option" where
  "dec_nat [] = None"
| "dec_nat (b # bs) =
     (if b = 0 then Some (0, bs)
      else (case dec_nat bs of None \<Rightarrow> None | Some (n, rest) \<Rightarrow> Some (Suc n, rest)))"

definition enc_list :: "('a \<Rightarrow> byte list) \<Rightarrow> 'a list \<Rightarrow> byte list" where
  "enc_list enc xs = enc_nat (length xs) @ concat (map enc xs)"

fun dec_items ::
  "(byte list \<Rightarrow> ('a \<times> byte list) option) \<Rightarrow> nat \<Rightarrow> byte list \<Rightarrow> ('a list \<times> byte list) option"
  where
  "dec_items dec 0 bs = Some ([], bs)"
| "dec_items dec (Suc n) bs =
     (case dec bs of
        None \<Rightarrow> None
      | Some (x, rest) \<Rightarrow>
          (case dec_items dec n rest of
             None \<Rightarrow> None
           | Some (xs, rest') \<Rightarrow> Some (x # xs, rest')))"

definition dec_list ::
  "(byte list \<Rightarrow> ('a \<times> byte list) option) \<Rightarrow> byte list \<Rightarrow> ('a list \<times> byte list) option" where
  "dec_list dec bs = (case dec_nat bs of None \<Rightarrow> None | Some (n, rest) \<Rightarrow> dec_items dec n rest)"

definition enc_char :: "char \<Rightarrow> byte list" where
  "enc_char c = enc_nat (of_char c)"

definition dec_char :: "byte list \<Rightarrow> (char \<times> byte list) option" where
  "dec_char bs = (case dec_nat bs of None \<Rightarrow> None | Some (n, rest) \<Rightarrow> Some (char_of n, rest))"

definition enc_int :: "int \<Rightarrow> byte list" where
  "enc_int i = (if i < 0 then 1 else 0) # enc_nat (nat \<bar>i\<bar>)"

fun dec_int :: "byte list \<Rightarrow> (int \<times> byte list) option" where
  "dec_int [] = None"
| "dec_int (s # bs) =
     (case dec_nat bs of
        None \<Rightarrow> None
      | Some (n, rest) \<Rightarrow> Some (if s = 0 then int n else - int n, rest))"

definition enc_pixel :: "rgb_pixel \<Rightarrow> byte list" where
  "enc_pixel p = [red p, green p, blue p]"

fun dec_pixel :: "byte list \<Rightarrow> (rgb_pixel \<times> byte list) option" where
  "dec_pixel (r # g # b # rest) = Some (\<lparr>red = r, green = g, blue = b\<rparr>, rest)"
| "dec_pixel bs = None"

definition enc_matrix :: "matrix \<Rightarrow> byte list" where
  "enc_matrix m = enc_int (nr m) @ enc_int (nc m) @ enc_list enc_pixel (pixels m)"

definition dec_matrix :: "byte list \<Rightarrow> (matrix \<times> byte list) option" where
  "dec_matrix bs =
     (case dec_int bs of
        None \<Rightarrow> None
      | Some (r, rest1) \<Rightarrow>
          (case dec_int rest1 of
             None \<Rightarrow> None
           | Some (c, rest2) \<Rightarrow>
               (case dec_list dec_pixel rest2 of
                  None \<Rightarrow> None
                | Some (ps, rest3) \<Rightarrow> Some (\<lparr>nr = r, nc = c, pixels = ps\<rparr>, rest3))))"

definition example_codec :: codec where
  "example_codec =
     \<lparr>serialize_images = enc_list enc_matrix,
      serialize_labels = enc_list (enc_list enc_char),
      serialize_numeric_labels = enc_list enc_nat,
      deserialize_images = dec_list dec_matrix,
      deserialize_labels = dec_list (dec_list dec_char),
      deserialize_numeric_labels = dec_list dec_nat\<rparr>"

definition example_dataset :: imagenet_dataset where
  "example_dataset =
     \<lparr>images = [example_image, new_matrix 0 0, example_image],
      labels = [''cat'', ''a b'', ''dog''],
      numeric_labels = [0, 0, 1]\<rparr>"

definition example_max_sizes :: max_sizes where
  "example_max_sizes = \<lparr>images_max_size = 2 ^ 58, labels_max_size = 2 ^ 60\<rparr>"

text \<open>Ninety samples, and \<open>0.3\<close> as the double nearest to it.\<close>

definition ninety_samples :: imagenet_dataset where
  "ninety_samples =
     \<lparr>images = replicate 90 example_image, labels = replicate 90 ''cat'',
      numeric_labels = replicate 90 0\<rparr>"

definition double_0_3 :: rat where
  "double_0_3 = to_double (3 / 10)"

section \<open>Auxiliary facts\<close>

subsection \<open>Facts about the scanner\<close>

lemma find_from_cases: "find_from s c i = npos \<or> (i \<le> find_from s c i \<and> find_from s c i < i + length s)"
proof (induction s arbitrary: i)
  case Nil
  then show ?case by simp
next
  case (Cons x xs)
  show ?case
  proof (cases "x = c")
    case True
    then show ?thesis by simp
  next
    case False
    with Cons.IH [of "Suc i"] show ?thesis by auto
  qed
qed

lemma find_from_absent: "c \<notin> set s \<Longrightarrow> find_from s c i = npos"
  by (induction s arbitrary: i) auto

lemma u64_npos_succ: "u64 (Suc npos) = 0"
  by (simp add: npos_def u64_def)

lemma u64_le: "u64 n \<le> n"
  by (simp add: u64_def)

lemma u64_less: "u64 n < 2 ^ 64"
  by (simp add: u64_def)

lemma u64_id: "n < 2 ^ 64 \<Longrightarrow> u64 n = n"
  by (simp add: u64_def)

lemma u64_add_left: "u64 (u64 a + b) = u64 (a + b)"
  unfolding u64_def by (rule mod_add_left_eq)

lemma length_filter_mset_cong: "mset xs = mset ys \<Longrightarrow> length (filter P xs) = length (filter P ys)"
  by (metis mset_filter size_mset)

lemma extract_desc_class_eq:
  "extract_desc_class name =
     Inr (drop (u64 (find_char name (CHR ''_'') + 1)) name)"
proof -
  let ?p = "find_char name (CHR ''_'')"
  have "u64 (?p + 1) \<le> length name"
  proof -
    from find_from_cases [of name "CHR ''_''" 0]
    consider "?p = npos" | "?p < length name"
      by (auto simp: find_char_def)
    then show ?thesis
    proof cases
      case 1
      then show ?thesis by (simp add: u64_npos_succ)
    next
      case 2
      have "u64 (?p + 1) \<le> ?p + 1" by (rule u64_le)
      with 2 show ?thesis by linarith
    qed
  qed
  then show ?thesis
    by (simp add: extract_desc_class_def substr_def Let_def)
qed

lemma extract_desc_class_label: "extract_desc_class name = Inr (class_label name)"
  by (simp add: class_label_def extract_desc_class_eq)

lemma jpg_test_eq:
  "jpg_test name = Inr (4 < length name \<and> tolower (drop (length name - 4) name) = ''.jpg'')"
  by (auto simp: jpg_test_def substr_def)

lemma jpg_test_cases: "jpg_test name = Inr True \<or> jpg_test name = Inr False"
  by (simp add: jpg_test_eq)

lemma last_temp_fields:
  "label (last_temp fs temp) = label temp \<and> numeric_label (last_temp fs temp) = numeric_label temp"
  by (induction fs arbitrary: temp) auto

lemma scan_files_eq:
  "scan_files fs (temp, results) =
     Inr (last_temp fs temp,
          results @ map (\<lambda>f. \<lparr>filename = file_full_name f, label = label temp,
                                numeric_label = numeric_label temp\<rparr>)
                      (filter (\<lambda>f. jpg_test (file_name f) = Inr True) fs))"
proof (induction fs arbitrary: temp results)
  case Nil
  then show ?case by simp
next
  case (Cons f fs)
  from jpg_test_cases [of "file_name f"] show ?case
  proof
    assume t: "jpg_test (file_name f) = Inr True"
    show ?thesis by (simp add: t Cons.IH Let_def)
  next
    assume t: "jpg_test (file_name f) = Inr False"
    show ?thesis by (simp add: t Cons.IH)
  qed
qed


lemma scan_dirs_eq:
  "numeric_label temp < 2 ^ 64 \<Longrightarrow>
   \<exists>temp'. scan_dirs ds (temp, results) =
     Inr (temp',
          results @ concat (map (\<lambda>(k, d). class_records d (class_label (dir_name d))
                                            (u64 (numeric_label temp + k)))
                              (enumerate 0 ds)))"
proof (induction ds arbitrary: temp results)
  case Nil
  then show ?case by simp
next
  case (Cons d ds)
  let ?l = "class_label (dir_name d)"
  let ?t1 = "last_temp (get_files d) (temp\<lparr>label := ?l\<rparr>)"
  let ?t2 = "?t1\<lparr>numeric_label := u64 (numeric_label ?t1 + 1)\<rparr>"
  let ?r1 = "results @ class_records d ?l (numeric_label temp)"
  have n1: "numeric_label ?t1 = numeric_label temp"
    by (simp add: last_temp_fields)
  have n2: "numeric_label ?t2 = u64 (numeric_label temp + 1)"
    by (simp add: n1)
  have lt: "numeric_label ?t2 < 2 ^ 64"
    unfolding n2 by (rule u64_less)
  have step: "scan_dirs (d # ds) (temp, results) = scan_dirs ds (?t2, ?r1)"
    by (simp add: extract_desc_class_label scan_files_eq class_records_def)
  from Cons.IH [OF lt, of ?r1] obtain temp' where
    ih: "scan_dirs ds (?t2, ?r1) =
           Inr (temp', ?r1 @ concat (map (\<lambda>(k, d). class_records d (class_label (dir_name d))
                                            (u64 (numeric_label ?t2 + k)))
                              (enumerate 0 ds)))"
    by blast
  have shift: "u64 (numeric_label ?t2 + k) = u64 (numeric_label temp + Suc k)" for k
    unfolding n2 by (simp add: u64_add_left)
  have first: "u64 (numeric_label temp) = numeric_label temp"
    using Cons.prems by (rule u64_id)
  have "map (\<lambda>(k, d). class_records d (class_label (dir_name d))
                                            (u64 (numeric_label temp + k)))
          (enumerate 0 (d # ds)) =
        class_records d ?l (numeric_label temp) #
        map (\<lambda>(k, d). class_records d (class_label (dir_name d))
                                            (u64 (numeric_label ?t2 + k)))
          (enumerate 0 ds)"
    unfolding shift by (simp add: enumerate_Suc_eq [of 0] first split_def comp_def)
  with step ih show ?case by simp
qed

lemma strict_sorted_rank:
  fixes key :: "'a \<Rightarrow> 'b::linorder"
  assumes s: "sorted (map key xs)" and d: "distinct (map key xs)" and k: "k < length xs"
  shows "length (filter (\<lambda>y. key y < key (xs ! k)) xs) = k"
proof -
  have ss: "sorted_wrt (<) (map key xs)"
    using s d by (simp add: strict_sorted_iff)
  have iff: "key (xs ! i) < key (xs ! k) \<longleftrightarrow> i < k" if "i < length xs" for i
  proof
    assume l: "key (xs ! i) < key (xs ! k)"
    show "i < k"
    proof (rule ccontr)
      assume "\<not> i < k"
      then consider "i = k" | "k < i" by linarith
      then show False
      proof cases
        case 1
        with l show False by simp
      next
        case 2
        from sorted_wrt_nth_less [OF ss 2] that k have "key (xs ! k) < key (xs ! i)" by simp
        with l show False by simp
      qed
    qed
  next
    assume "i < k"
    from sorted_wrt_nth_less [OF ss this] k that show "key (xs ! i) < key (xs ! k)" by simp
  qed
  have "length (filter (\<lambda>y. key y < key (xs ! k)) xs) =
        card {i. i < length xs \<and> key (xs ! i) < key (xs ! k)}"
    by (rule length_filter_conv_card)
  also have "{i. i < length xs \<and> key (xs ! i) < key (xs ! k)} = {i. i < k}"
    using iff k by auto
  also have "card {i. i < k} = k" by simp
  finally show ?thesis .
qed

lemma rank_in_sorted:
  assumes d: "distinct (map dir_name subdirs)" and k: "k < length subdirs"
  shows "zero_based_rank subdirs (sort_subdirs subdirs ! k) = k"
proof -
  let ?s = "sort_subdirs subdirs"
  have m: "mset ?s = mset subdirs" by (simp add: sort_subdirs_def)
  have s: "sorted (map dir_name ?s)" by (simp add: sort_subdirs_def)
  have "mset (map dir_name ?s) = mset (map dir_name subdirs)" using m by simp
  then have d': "distinct (map dir_name ?s)" using d by (metis mset_eq_imp_distinct_iff)
  have k': "k < length ?s" using k by (simp add: sort_subdirs_def)
  have "zero_based_rank subdirs (?s ! k) =
        length (filter (\<lambda>d'. dir_name d' < dir_name (?s ! k)) ?s)"
    unfolding zero_based_rank_def by (rule length_filter_mset_cong) (simp add: m)
  also have "\<dots> = k" by (rule strict_sorted_rank [OF s d' k'])
  finally show ?thesis .
qed


lemma get_imagenet_listing_eq:
  assumes "directory_at ev folder = Inr root_dir"
  shows "get_imagenet_listing ev folder =
           Inr (concat (map (\<lambda>(k, d). class_records d (class_label (dir_name d)) (u64 k))
                          (enumerate 0 (sort_subdirs (get_dirs root_dir)))))"
proof -
  let ?temp = "\<lparr>filename = [], label = [], numeric_label = 0\<rparr>"
  have "numeric_label ?temp < 2 ^ 64" by simp
  from scan_dirs_eq [OF this, of "sort_subdirs (get_dirs root_dir)" "[]"]
  obtain temp' where
    "scan_dirs (sort_subdirs (get_dirs root_dir)) (?temp, []) =
       Inr (temp', concat (map (\<lambda>(k, d). class_records d (class_label (dir_name d)) (u64 k))
                          (enumerate 0 (sort_subdirs (get_dirs root_dir)))))"
    by auto
  with assms show ?thesis
    by (simp add: get_imagenet_listing_def)
qed

lemma map_enumerate_nth:
  assumes "\<And>k. k < length xs \<Longrightarrow> f k (xs ! k) = g (xs ! k)"
  shows "map (\<lambda>(k, x). f k x) (enumerate 0 xs) = map g xs"
  by (rule nth_equalityI) (simp_all add: nth_enumerate_eq assms)

lemma jpg_suffix_iff:
  assumes "4 \<le> length name"
  shows "tolower (drop (length name - 4) name) = ''.jpg'' \<longleftrightarrow> ends_with_jpg_ci name"
proof -
  let ?t = "tolower name"
  have len: "length ?t = length name" by (simp add: tolower_def)
  have dm: "tolower (drop (length name - 4) name) = drop (length ?t - 4) ?t"
    by (simp add: tolower_def drop_map)
  show ?thesis
  proof
    assume "tolower (drop (length name - 4) name) = ''.jpg''"
    then have "drop (length ?t - 4) ?t = ''.jpg''" by (simp only: dm)
    then have "?t = take (length ?t - 4) ?t @ ''.jpg''"
      by (metis append_take_drop_id)
    then show "ends_with_jpg_ci name"
      unfolding ends_with_jpg_ci_def suffix_def by blast
  next
    assume "ends_with_jpg_ci name"
    then obtain zs where zs: "?t = zs @ ''.jpg''"
      unfolding ends_with_jpg_ci_def suffix_def by blast
    then have "length ?t = length zs + 4" by simp
    then have "drop (length ?t - 4) ?t = ''.jpg''"
      by (simp add: zs)
    then show "tolower (drop (length name - 4) name) = ''.jpg''" by (simp only: dm)
  qed
qed

lemma jpg_test_True_iff:
  "jpg_test name = Inr True \<longleftrightarrow> 4 < length name \<and> ends_with_jpg_ci name"
proof (cases "4 < length name")
  case True
  then have "4 \<le> length name" by simp
  from jpg_suffix_iff [OF this] True show ?thesis by (simp add: jpg_test_eq)
next
  case False
  then show ?thesis by (simp add: jpg_test_eq)
qed

lemma mset_concat_map_cong:
  assumes "mset xs = mset ys"
  shows "mset (concat (map f xs)) = mset (concat (map f ys))"
proof -
  have "mset (concat (map f zs)) = sum_mset (image_mset (\<lambda>z. mset (f z)) (mset zs))" for zs
    by (induction zs) simp_all
  with assms show ?thesis by simp
qed

subsection \<open>Facts about the ingestion loop\<close>

lemma ingest_step_lengths:
  assumes "length (images ds) = length (labels ds)"
    and "length (labels ds) = length (numeric_labels ds)"
  shows "length (images (ingest_step ev rows cols info ds)) =
           length (labels (ingest_step ev rows cols info ds)) \<and>
         length (labels (ingest_step ev rows cols info ds)) =
           length (numeric_labels (ingest_step ev rows cols info ds))"
  using assms by (simp add: ingest_step_def split: sum.splits)

lemma ingest_loop_stop:
  "\<not> (i < length listing \<and> \<not> tf i) \<Longrightarrow> ingest_loop ev tf rows cols listing i ds = ds"
  by (subst ingest_loop.simps) auto

lemma ingest_loop_continue:
  "i < length listing \<Longrightarrow> \<not> tf i \<Longrightarrow>
   ingest_loop ev tf rows cols listing i ds =
     ingest_loop ev tf rows cols listing (Suc i) (ingest_step ev rows cols (listing ! i) ds)"
  by (subst ingest_loop.simps) simp

lemma ingest_loop_lengths:
  assumes "length (images ds) = length (labels ds)"
    and "length (labels ds) = length (numeric_labels ds)"
  shows "length (images (ingest_loop ev tf rows cols listing i ds)) =
           length (labels (ingest_loop ev tf rows cols listing i ds)) \<and>
         length (labels (ingest_loop ev tf rows cols listing i ds)) =
           length (numeric_labels (ingest_loop ev tf rows cols listing i ds))"
  using assms
proof (induction ev tf rows cols listing i ds rule: ingest_loop.induct)
  case (1 ev tf rows cols listing i ds)
  show ?case
  proof (cases "i < length listing \<and> \<not> tf i")
    case True
    from ingest_step_lengths [OF "1.prems", of ev rows cols "listing ! i"]
    have "length (images (ingest_step ev rows cols (listing ! i) ds)) =
            length (labels (ingest_step ev rows cols (listing ! i) ds))"
      and "length (labels (ingest_step ev rows cols (listing ! i) ds)) =
            length (numeric_labels (ingest_step ev rows cols (listing ! i) ds))"
      by simp_all
    from "1.IH" [OF True this] True show ?thesis
      by (simp add: ingest_loop_continue)
  next
    case False
    with "1.prems" show ?thesis
      by (simp add: ingest_loop_stop)
  qed
qed

lemma ingest_loop_until:
  assumes "i \<le> k" and "k \<le> length listing"
    and "\<forall>j. i \<le> j \<and> j < k \<longrightarrow> \<not> tf j"
    and "k = length listing \<or> tf k"
  shows "ingest_loop ev tf rows cols listing i ds =
           foldl (\<lambda>dataset info. ingest_step ev rows cols info dataset) ds
             (drop i (take k listing))"
  using assms
proof (induction "k - i" arbitrary: i ds)
  case 0
  then have ik: "i = k" by simp
  with "0.prems" have "\<not> (i < length listing \<and> \<not> tf i)" by auto
  then have "ingest_loop ev tf rows cols listing i ds = ds"
    by (rule ingest_loop_stop)
  with ik "0.prems" show ?case by simp
next
  case (Suc d)
  then have lt: "i < k" by simp
  with Suc.prems have c: "i < length listing \<and> \<not> tf i" by auto
  have d: "drop i (take k listing) = listing ! i # drop (Suc i) (take k listing)"
    using lt Suc.prems by (simp add: Cons_nth_drop_Suc [symmetric])
  have "ingest_loop ev tf rows cols listing i ds =
        ingest_loop ev tf rows cols listing (Suc i) (ingest_step ev rows cols (listing ! i) ds)"
    using c by (simp add: ingest_loop_continue)
  also have "\<dots> = foldl (\<lambda>dataset info. ingest_step ev rows cols info dataset)
                      (ingest_step ev rows cols (listing ! i) ds)
                      (drop (Suc i) (take k listing))"
    using Suc.hyps Suc.prems lt by (intro Suc.hyps(1)) auto
  finally show ?case by (simp add: d)
qed

subsection \<open>The example encoding round-trips\<close>

lemma dec_nat_enc_nat: "dec_nat (enc_nat n @ rest) = Some (n, rest)"
  by (induction n) (simp_all add: enc_nat_def)

lemma dec_items_enc:
  assumes "\<And>x rest. dec (enc x @ rest) = Some (x, rest)"
  shows "dec_items dec (length xs) (concat (map enc xs) @ rest) = Some (xs, rest)"
  by (induction xs) (simp_all add: assms)

lemma dec_list_enc_list:
  assumes "\<And>x rest. dec (enc x @ rest) = Some (x, rest)"
  shows "dec_list dec (enc_list enc xs @ rest) = Some (xs, rest)"
  by (simp add: dec_list_def enc_list_def dec_nat_enc_nat dec_items_enc [of dec enc, OF assms])

lemma dec_char_enc_char: "dec_char (enc_char c @ rest) = Some (c, rest)"
  by (simp add: dec_char_def enc_char_def dec_nat_enc_nat)

lemma dec_int_enc_int: "dec_int (enc_int i @ rest) = Some (i, rest)"
  by (simp add: enc_int_def dec_nat_enc_nat)

lemma dec_pixel_enc_pixel: "dec_pixel (enc_pixel p @ rest) = Some (p, rest)"
  by (simp add: enc_pixel_def)

lemma dec_matrix_enc_matrix: "dec_matrix (enc_matrix m @ rest) = Some (m, rest)"
  by (simp add: dec_matrix_def enc_matrix_def dec_int_enc_int
        dec_list_enc_list [of dec_pixel enc_pixel, OF dec_pixel_enc_pixel])

lemma example_codec_round_trips: "codec_round_trips example_codec"
  unfolding codec_round_trips_def example_codec_def
  by (simp add: dec_list_enc_list [of dec_matrix enc_matrix, OF dec_matrix_enc_matrix]
        dec_list_enc_list [of dec_nat enc_nat, OF dec_nat_enc_nat]
        dec_list_enc_list [of "dec_list dec_char" "enc_list enc_char",
          OF dec_list_enc_list [of dec_char enc_char, OF dec_char_enc_char]])

lemma deserialize_dataset_bytes:
  assumes "codec_round_trips cd"
  shows "deserialize_dataset cd (st(dataset_file \<mapsto> dataset_bytes cd dataset)) dataset_file =
           Inr dataset"
proof -
  from assms have
    i: "\<And>imgs rest. deserialize_images cd (serialize_images cd imgs @ rest) = Some (imgs, rest)"
    and l: "\<And>lbls rest. deserialize_labels cd (serialize_labels cd lbls @ rest) = Some (lbls, rest)"
    and n: "\<And>nums rest. deserialize_numeric_labels cd (serialize_numeric_labels cd nums @ rest)
              = Some (nums, rest)"
    unfolding codec_round_trips_def by blast+
  have "deserialize_numeric_labels cd (serialize_numeric_labels cd (numeric_labels dataset)) =
          Some (numeric_labels dataset, [])"
    using n [of "numeric_labels dataset" "[]"] by simp
  then show ?thesis
    by (simp add: deserialize_dataset_def dataset_bytes_def i l)
qed

subsection \<open>Facts about rounding to double\<close>

lemma round_half_even_of_int: "round_half_even (of_int z) = z"
  by (simp add: round_half_even_def)

lemma round_half_even_le:
  assumes "m \<le> of_int z"
  shows "round_half_even m \<le> z"
proof -
  have f: "\<lfloor>m\<rfloor> \<le> z" using assms by (simp add: floor_le_iff) 
  show ?thesis
  proof (cases "m = of_int \<lfloor>m\<rfloor>")
    case True
    then have "round_half_even m = \<lfloor>m\<rfloor>"
      by (metis round_half_even_of_int)
    with f show ?thesis by simp
  next
    case False
    then have "of_int \<lfloor>m\<rfloor> < m" by (metis of_int_floor_le order_less_le)
    with assms have "(of_int \<lfloor>m\<rfloor> :: rat) < of_int z" by linarith
    then have "\<lfloor>m\<rfloor> + 1 \<le> z" by simp
    moreover have "round_half_even m \<le> \<lfloor>m\<rfloor> + 1"
      by (simp add: round_half_even_def Let_def)
    ultimately show ?thesis by linarith
  qed
qed

lemma round_half_even_ge:
  assumes "of_int z \<le> m"
  shows "z \<le> round_half_even m"
proof -
  have "z \<le> \<lfloor>m\<rfloor>" using assms by (simp add: le_floor_iff)
  moreover have "\<lfloor>m\<rfloor> \<le> round_half_even m"
    by (simp add: round_half_even_def Let_def)
  ultimately show ?thesis by linarith
qed

lemma floorlog_two_bounds:
  assumes "0 < n" and "k = floorlog 2 n"
  shows "0 < k" and "(2::rat) ^ (k - 1) \<le> of_nat n" and "rat_of_nat n + 1 \<le> 2 ^ k"
proof -
  from floorlog_bounds [OF assms(1), of 2]
  have lo: "2 ^ (k - 1) \<le> n" and hi: "n < 2 ^ k" by (simp_all add: assms(2))
  from assms(1) have "floorlog 2 n \<noteq> 0" unfolding floorlog_eq_zero_iff by simp
  then show "0 < k" by (simp add: assms(2))
  from lo have "rat_of_nat (2 ^ (k - 1)) \<le> rat_of_nat n" by (simp only: of_nat_le_iff)
  then show "(2::rat) ^ (k - 1) \<le> of_nat n" by simp
  from hi have "n + 1 \<le> 2 ^ k" by simp
  then have "rat_of_nat (n + 1) \<le> rat_of_nat (2 ^ k)" by (simp only: of_nat_le_iff)
  then show "rat_of_nat n + 1 \<le> 2 ^ k" by simp
qed

lemma exponent_ge_one:
  assumes "1 \<le> \<bar>x\<bar>"
  shows "2 powi exponent x \<le> \<bar>x\<bar>" and "\<bar>x\<bar> < 2 powi (exponent x + 1)"
proof -
  define n where "n = nat \<lfloor>\<bar>x\<bar>\<rfloor>"
  define k where "k = floorlog 2 n"
  have n: "0 < n" using assms by (simp add: n_def)
  note b = floorlog_two_bounds [OF n k_def]
  have "exponent x = int (k - 1)" "exponent x + 1 = int k"
    using assms b(1) by (simp_all add: exponent_def k_def n_def)
  then have e: "(2::rat) powi exponent x = 2 ^ (k - 1)" "(2::rat) powi (exponent x + 1) = 2 ^ k"
    by (simp_all only: power_int_of_nat)
  have "rat_of_nat n = of_int \<lfloor>\<bar>x\<bar>\<rfloor>"
    by (simp add: n_def)
  then have nx: "rat_of_nat n \<le> \<bar>x\<bar>" "\<bar>x\<bar> < rat_of_nat n + 1"
    by linarith+
  from b(2) nx show "2 powi exponent x \<le> \<bar>x\<bar>"
    unfolding e by linarith
  from b(3) nx show "\<bar>x\<bar> < 2 powi (exponent x + 1)"
    unfolding e by linarith
qed

lemma exponent_less_one:
  assumes "x \<noteq> 0" and "\<bar>x\<bar> < 1"
  shows "2 powi exponent x \<le> \<bar>x\<bar>" and "\<bar>x\<bar> < 2 powi (exponent x + 1)"
proof -
  define y where "y = 1 / \<bar>x\<bar>"
  define n where "n = nat (\<lceil>y\<rceil> - 1)"
  define k where "k = floorlog 2 n"
  have pos: "0 < \<bar>x\<bar>" using assms by simp
  have y: "1 < y" using assms pos by (simp add: y_def)
  then have c: "2 \<le> \<lceil>y\<rceil>" by (simp add: le_ceiling_iff)
  then have n: "0 < n" by (simp add: n_def)
  note b = floorlog_two_bounds [OF n k_def]
  have "exponent x = - int k" "exponent x + 1 = - int (k - 1)"
    using assms b(1) by (simp_all add: exponent_def k_def n_def y_def)
  then have e: "(2::rat) powi exponent x = 1 / 2 ^ k"
    "(2::rat) powi (exponent x + 1) = 1 / 2 ^ (k - 1)"
    by (simp_all only: power_int_minus power_int_of_nat inverse_eq_divide)
  have "rat_of_nat n = of_int \<lceil>y\<rceil> - 1"
    using c by (simp add: n_def)
  then have ny: "rat_of_nat n < y" "y \<le> rat_of_nat n + 1"
    by linarith+
  have x: "\<bar>x\<bar> = 1 / y" by (simp add: y_def)
  from b(3) ny have "y \<le> 2 ^ k" by linarith
  then have "1 / 2 ^ k \<le> 1 / y"
    using y by (simp add: frac_le)
  then show "2 powi exponent x \<le> \<bar>x\<bar>"
    unfolding e x .
  from b(2) ny have "2 ^ (k - 1) < y" by linarith
  then have "1 / y < 1 / 2 ^ (k - 1)"
    by (simp add: frac_less2)
  then show "\<bar>x\<bar> < 2 powi (exponent x + 1)"
    unfolding e x .
qed

lemma exponent_bounds:
  assumes "x \<noteq> 0"
  shows "2 powi exponent x \<le> \<bar>x\<bar>" and "\<bar>x\<bar> < 2 powi (exponent x + 1)"
  using exponent_ge_one [of x] exponent_less_one [of x] assms by (cases "1 \<le> \<bar>x\<bar>"; simp)+


lemma nat_on_grid:
  assumes "0 < x" and "x \<le> rat_of_nat n" and "n \<le> 2 ^ 53"
  obtains z :: int where "rat_of_nat n = of_int z * 2 powi (max (exponent x) (- 1022) - 52)"
proof (cases "max (exponent x) (- 1022) \<le> 52")
  case True
  define j where "j = nat (52 - max (exponent x) (- 1022))"
  have "max (exponent x) (- 1022) - 52 = - int j" using True by (simp add: j_def)
  then have "(2::rat) powi (max (exponent x) (- 1022) - 52) = 1 / 2 ^ j"
    by (simp only: power_int_minus power_int_of_nat inverse_eq_divide)
  then have "rat_of_nat n = of_int (int n * 2 ^ j) * 2 powi (max (exponent x) (- 1022) - 52)"
    by simp
  then show ?thesis by (rule that)
next
  case False
  then have e: "53 \<le> exponent x" by simp
  have "x \<noteq> 0" using assms(1) by simp
  from exponent_bounds(1) [OF this] assms(1) have lo: "2 powi exponent x \<le> x" by simp
  have "(2::rat) powi 53 \<le> 2 powi exponent x"
    using e by (intro power_int_increasing) simp_all
  with lo have x53: "2 ^ 53 \<le> x" by simp
  have "rat_of_nat n \<le> rat_of_nat (2 ^ 53)" using assms(3) by (simp only: of_nat_le_iff)
  with x53 assms(2) have n: "rat_of_nat n = 2 ^ 53" and x: "x = 2 ^ 53" by simp_all
  have "x < 2 powi 54" unfolding x by simp
  with lo have less: "(2::rat) powi exponent x < 2 powi 54" by linarith
  have "\<not> 54 \<le> exponent x"
  proof
    assume "54 \<le> exponent x"
    then have "(2::rat) powi 54 \<le> 2 powi exponent x"
      by (intro power_int_increasing) simp_all
    with less show False by simp
  qed
  with e have "exponent x = 53" by simp
  then have "(2::rat) powi (max (exponent x) (- 1022) - 52) = 2" by simp
  with n have "rat_of_nat n = of_int (2 ^ 52) * 2 powi (max (exponent x) (- 1022) - 52)"
    by simp
  then show ?thesis by (rule that)
qed

lemma to_double_nonneg:
  assumes "0 \<le> x"
  shows "0 \<le> to_double x"
proof (cases "x = 0")
  case True
  then show ?thesis by (simp add: to_double_def)
next
  case False
  define ulp :: rat where "ulp = 2 powi (max (exponent x) (- 1022) - 52)"
  have u: "0 < ulp" by (simp add: ulp_def)
  have "of_int 0 \<le> x / ulp" using assms u by simp
  then have "0 \<le> round_half_even (x / ulp)" by (rule round_half_even_ge)
  then have "0 \<le> of_int (round_half_even (x / ulp)) * ulp" using u by simp
  then show ?thesis using False by (simp add: to_double_def Let_def ulp_def)
qed

lemma to_double_le_nat:
  assumes "0 \<le> x" and "x \<le> rat_of_nat n" and "n \<le> 2 ^ 53"
  shows "to_double x \<le> rat_of_nat n"
proof (cases "x = 0")
  case True
  then show ?thesis by (simp add: to_double_def)
next
  case False
  define ulp :: rat where "ulp = 2 powi (max (exponent x) (- 1022) - 52)"
  have u: "0 < ulp" by (simp add: ulp_def)
  from False assms(1) have "0 < x" by simp
  from nat_on_grid [OF this assms(2,3)] obtain z :: int where z: "rat_of_nat n = of_int z * ulp"
    unfolding ulp_def by blast
  have "x / ulp \<le> of_int z" using assms(2) u by (simp add: z pos_divide_le_eq)
  then have "round_half_even (x / ulp) \<le> z" by (rule round_half_even_le)
  then have "of_int (round_half_even (x / ulp)) * ulp \<le> of_int z * ulp"
    using u by simp
  then show ?thesis using False by (simp add: to_double_def Let_def ulp_def z)
qed

lemma to_double_of_nat:
  assumes "n \<le> 2 ^ 53"
  shows "to_double (rat_of_nat n) = rat_of_nat n"
proof (cases "n = 0")
  case True
  then show ?thesis by (simp add: to_double_def)
next
  case False
  define ulp :: rat where "ulp = 2 powi (max (exponent (rat_of_nat n)) (- 1022) - 52)"
  have u: "0 < ulp" by (simp add: ulp_def)
  from False have "0 < rat_of_nat n" by simp
  from nat_on_grid [OF this order_refl assms] obtain z :: int
    where z: "rat_of_nat n = of_int z * ulp"
    unfolding ulp_def by blast
  have "rat_of_nat n / ulp = of_int z" using u by (simp add: z)
  then have "round_half_even (rat_of_nat n / ulp) = z" by (simp only: round_half_even_of_int)
  then have "of_int (round_half_even (rat_of_nat n / ulp)) * ulp = rat_of_nat n"
    by (simp add: z)
  then show ?thesis using False by (simp add: to_double_def Let_def ulp_def)
qed

subsection \<open>Facts about the splitting loop\<close>

lemma split_loop_done:
  "\<not> i < length indices \<Longrightarrow> split_loop dataset indices split_point i out = Inr out"
  by (subst split_loop.simps) simp

lemma split_loop_train:
  "i < length indices \<Longrightarrow> indices ! i < length (images dataset) \<Longrightarrow>
   indices ! i < length (numeric_labels dataset) \<Longrightarrow> i < split_point \<Longrightarrow>
   split_loop dataset indices split_point i out =
     split_loop dataset indices split_point (Suc i)
       (out\<lparr>training_images := training_images out @ [images dataset ! (indices ! i)],
            training_labels := training_labels out @ [numeric_labels dataset ! (indices ! i)]\<rparr>)"
  by (subst split_loop.simps) (simp add: Let_def)

lemma split_loop_test:
  "i < length indices \<Longrightarrow> indices ! i < length (images dataset) \<Longrightarrow>
   indices ! i < length (numeric_labels dataset) \<Longrightarrow> \<not> i < split_point \<Longrightarrow>
   split_loop dataset indices split_point i out =
     split_loop dataset indices split_point (Suc i)
       (out\<lparr>testing_images := testing_images out @ [images dataset ! (indices ! i)],
            testing_labels := testing_labels out @ [numeric_labels dataset ! (indices ! i)]\<rparr>)"
  by (subst split_loop.simps) (simp add: Let_def)

lemma split_loop_eq:
  assumes valid: "\<forall>idx \<in> set indices. idx < length (images dataset) \<and>
                                    idx < length (numeric_labels dataset)"
  shows "i \<le> length indices \<Longrightarrow>
         split_loop dataset indices split_point i out =
           Inr (out\<lparr>training_images :=
                      training_images out @
                        map (nth (images dataset)) (drop i (take split_point indices)),
                    training_labels :=
                      training_labels out @
                        map (nth (numeric_labels dataset)) (drop i (take split_point indices)),
                    testing_images :=
                      testing_images out @
                        map (nth (images dataset)) (drop (max i split_point) indices),
                    testing_labels :=
                      testing_labels out @
                        map (nth (numeric_labels dataset)) (drop (max i split_point) indices)\<rparr>)"
proof (induction "length indices - i" arbitrary: i out)
  case 0
  then have "i = length indices" by simp
  then show ?case by (simp add: split_loop_done)
next
  case (Suc d)
  then have lt: "i < length indices" by simp
  then have "indices ! i \<in> set indices" by simp
  with valid have v: "indices ! i < length (images dataset)"
    "indices ! i < length (numeric_labels dataset)" by auto
  have next': "Suc i \<le> length indices" "d = length indices - Suc i"
    using lt Suc.hyps by simp_all
  show ?case
  proof (cases "i < split_point")
    case True
    have t: "drop i (take split_point indices) =
             indices ! i # drop (Suc i) (take split_point indices)"
      using lt True by (simp add: Cons_nth_drop_Suc [symmetric])
    have m: "max i split_point = max (Suc i) split_point" using True by simp
    show ?thesis
      unfolding split_loop_train [OF lt v True] Suc.hyps(1) [OF next'(2) next'(1)] t m
      by simp
  next
    case False
    have t: "drop i (take split_point indices) = []" "drop (Suc i) (take split_point indices) = []"
      using False by simp_all
    have m: "max i split_point = i" "max (Suc i) split_point = Suc i" using False by simp_all
    have dr: "drop i indices = indices ! i # drop (Suc i) indices"
      using lt by (simp add: Cons_nth_drop_Suc)
    show ?thesis
      unfolding split_loop_test [OF lt v False] Suc.hyps(1) [OF next'(2) next'(1)] t m dr
      by simp
  qed
qed

lemma reserve_within: "n \<le> max_size \<Longrightarrow> reserve max_size n = Inr ()"
  by (simp add: reserve_def)

lemma rest_within:
  assumes "split_point \<le> n"
  shows "u64 (n + 2 ^ 64 - split_point) \<le> n"
proof -
  have "n + 2 ^ 64 - split_point = (n - split_point) + 2 ^ 64" using assms by simp
  then have "u64 (n + 2 ^ 64 - split_point) = u64 ((n - split_point) + 2 ^ 64)"
    by (simp only:)
  also have "\<dots> = u64 (n - split_point)"
    unfolding u64_def by (rule mod_add_self2)
  also have "\<dots> \<le> n - split_point" by (rule u64_le)
  finally show ?thesis by simp
qed

lemma load_stable_imagenet_1k_eq:
  assumes loaded: "deserialize_dataset cd st dataset_file = Inr dataset"
    and samples: "length (numeric_labels dataset) = length (images dataset)"
    and permutation: "mset (shuffle [0 ..< length (images dataset)]) =
                      mset [0 ..< length (images dataset)]"
    and point: "split_point_of (length (images dataset)) test_fraction = Inr split_point"
    and bound: "split_point \<le> length (images dataset)"
    and room: "length (images dataset) \<le> images_max_size ms"
      "length (images dataset) \<le> labels_max_size ms"
  shows "load_stable_imagenet_1k cd shuffle ms st dataset_file test_fraction =
           Inr \<lparr>training_images =
                  map (nth (images dataset))
                    (take split_point (shuffle [0 ..< length (images dataset)])),
                training_labels =
                  map (nth (numeric_labels dataset))
                    (take split_point (shuffle [0 ..< length (images dataset)])),
                testing_images =
                  map (nth (images dataset))
                    (drop split_point (shuffle [0 ..< length (images dataset)])),
                testing_labels =
                  map (nth (numeric_labels dataset))
                    (drop split_point (shuffle [0 ..< length (images dataset)]))\<rparr>"
proof -
  let ?n = "length (images dataset)"
  let ?indices = "shuffle [0 ..< ?n]"
  have set_eq: "set ?indices = {0 ..< ?n}"
    using permutation by (metis mset_eq_setD set_upt)
  have valid: "\<forall>idx \<in> set ?indices. idx < length (images dataset) \<and>
                                     idx < length (numeric_labels dataset)"
    using set_eq samples by simp
  have r1: "reserve (images_max_size ms) split_point = Inr ()"
    "reserve (labels_max_size ms) split_point = Inr ()"
    using bound room by (simp_all add: reserve_within)
  from rest_within [OF bound] room
  have r2: "reserve (images_max_size ms) (u64 (?n + 2 ^ 64 - split_point)) = Inr ()"
    "reserve (labels_max_size ms) (u64 (?n + 2 ^ 64 - split_point)) = Inr ()"
    by (simp_all add: reserve_within)
  have "load_stable_imagenet_1k cd shuffle ms st dataset_file test_fraction =
          split_loop dataset ?indices split_point 0 empty_split"
    using point r1 r2 by (simp add: load_stable_imagenet_1k_def loaded Let_def)
  also have "\<dots> = Inr \<lparr>training_images = map (nth (images dataset)) (take split_point ?indices),
                training_labels = map (nth (numeric_labels dataset)) (take split_point ?indices),
                testing_images = map (nth (images dataset)) (drop split_point ?indices),
                testing_labels = map (nth (numeric_labels dataset)) (drop split_point ?indices)\<rparr>"
    using split_loop_eq [OF valid, of 0 split_point empty_split]
    by (simp add: empty_split_def)
  finally show ?thesis .
qed

lemma split_point_of_unit_interval:
  assumes "0 \<le> test_fraction" and "test_fraction \<le> 1" and "n \<le> 2 ^ 53"
  shows "split_point_of n test_fraction =
           Inr (nat \<lfloor>to_double (rat_of_nat n * to_double (1 - test_fraction))\<rfloor>)"
    and "nat \<lfloor>to_double (rat_of_nat n * to_double (1 - test_fraction))\<rfloor> \<le> n"
proof -
  let ?d = "to_double (1 - test_fraction)"
  let ?p = "to_double (rat_of_nat n * ?d)"
  have t0: "0 \<le> 1 - test_fraction" using assms(2) by simp
  have t1: "1 - test_fraction \<le> rat_of_nat 1" using assms(1) by simp
  have d0: "0 \<le> ?d" using t0 by (rule to_double_nonneg)
  have "?d \<le> rat_of_nat 1"
    using t0 t1 by (rule to_double_le_nat) simp
  then have d1: "?d \<le> 1" by simp
  have x0: "0 \<le> rat_of_nat n * ?d" using d0 by simp
  have x1: "rat_of_nat n * ?d \<le> rat_of_nat n"
    using d1 by (simp add: mult_left_le)
  have p0: "0 \<le> ?p" using x0 by (rule to_double_nonneg)
  have p1: "?p \<le> rat_of_nat n" using x0 x1 assms(3) by (rule to_double_le_nat)
  have "rat_of_nat n \<le> rat_of_nat (2 ^ 53)" using assms(3) by (simp only: of_nat_le_iff)
  with p1 have p2: "?p < 2 ^ 64" by simp
  from p0 p2 show "split_point_of n test_fraction = Inr (nat \<lfloor>?p\<rfloor>)"
    by (simp add: split_point_of_def Let_def to_double_of_nat [OF assms(3)])
  from p1 have "\<lfloor>?p\<rfloor> \<le> int n" by (simp add: floor_le_iff)
  then show "nat \<lfloor>?p\<rfloor> \<le> n" by simp
qed

subsection \<open>Evaluating the examples\<close>

lemmas scanner_defs = get_imagenet_listing_def sort_subdirs_def extract_desc_class_def find_char_def
  npos_def u64_def substr_def jpg_test_def tolower_def tolower_char_def char_of_def bit_Suc_0_iff

lemma example_root_at: "directory_at example_env ''imgs'' = Inr example_root"
  by (simp add: example_env_def)

lemma example_listing_run: "get_imagenet_listing example_env ''imgs'' = Inr example_listing"
  by (simp add: example_env_def example_root_def example_listing_def scanner_defs Let_def)

lemma example_steps:
  "load_and_resize_image example_env ''imgs/birds/b1.jpg'' 1 2 = Inr example_image"
  "load_and_resize_image example_env ''imgs/n001_cat/c1.JPG'' 1 2 = Inr example_image"
  "load_and_resize_image example_env ''imgs/n001_cat/bad.jpg'' 1 2 = Inl image_load_error"
  by (simp_all add: load_and_resize_image_def example_env_def example_image_def)

lemma example_ingested:
  "ingested example_env 1 2 (take 3 example_listing) =
     \<lparr>images = [example_image, example_image], labels = [''birds'', ''cat''],
      numeric_labels = [0, 2]\<rparr>"
  by (simp add: ingested_def example_listing_def ingest_step_def example_steps empty_dataset_def)

lemma example_split_point: "split_point_of 3 (1 / 4) = Inr 2"
  by code_simp

lemma example_split_point_bounds: "split_point_of 3 0 = Inr 3" "split_point_of 3 1 = Inr 0"
  by code_simp+

lemma double_0_3_value: "double_0_3 = 5404319552844595 / 18014398509481984"
  by code_simp

lemma ninety_split_point: "split_point_of 90 double_0_3 = Inr 62"
  by code_simp

lemma ninety_floor: "\<lfloor>90 * (1 - double_0_3)\<rfloor> = 63"
  by code_simp

lemma nth_replicate_map:
  "(\<And>i. i \<in> set xs \<Longrightarrow> i < m) \<Longrightarrow> map (nth (replicate m x)) xs = replicate (length xs) x"
  by (induction xs) auto

lemma replicate_take_drop:
  assumes "k \<le> m"
  shows "map (nth (replicate m x)) (take k [0 ..< m]) = replicate k x"
    and "map (nth (replicate m x)) (drop k [0 ..< m]) = replicate (m - k) x"
proof -
  have "map (nth (replicate m x)) (take k [0 ..< m]) = replicate (length (take k [0 ..< m])) x"
    by (rule nth_replicate_map) (auto dest: in_set_takeD)
  then show "map (nth (replicate m x)) (take k [0 ..< m]) = replicate k x"
    using assms by simp
  have "map (nth (replicate m x)) (drop k [0 ..< m]) = replicate (length (drop k [0 ..< m])) x"
    by (rule nth_replicate_map) (auto dest: in_set_dropD)
  then show "map (nth (replicate m x)) (drop k [0 ..< m]) = replicate (m - k) x"
    by simp
qed

text \<open>A negative test fraction puts the split point above the size, and \<open>reserve\<close> throws.\<close>

lemma example_split_point_beyond: "split_point_of 3 (- 1 / 2) = Inr 4"
  by code_simp

lemma example_reserve_throws:
  "load_stable_imagenet_1k example_codec rev example_max_sizes
     [''out.dat'' \<mapsto> dataset_bytes example_codec example_dataset] ''out.dat'' (- 1 / 2) =
     Inl length_error"
proof -
  have d: "deserialize_dataset example_codec
             [''out.dat'' \<mapsto> dataset_bytes example_codec example_dataset] ''out.dat'' =
           Inr example_dataset"
    by (rule deserialize_dataset_bytes [OF example_codec_round_trips])
  have n: "length (images example_dataset) = 3" by (simp add: example_dataset_def)
  show ?thesis
    unfolding load_stable_imagenet_1k_def d
    using example_split_point_beyond
    by (simp add: n reserve_def u64_def example_max_sizes_def Let_def)
qed

section \<open>Properties of the specification\<close>

subsection \<open>Directory scanner\<close>

text \<open>
  \<^bold>\<open>C1.\<close> When the names of the class subdirectories are distinct (as they are in a
  directory) and there are at most \<open>2 ^ 64\<close> of them, \<open>get_imagenet_listing\<close> returns, for
  the subdirectories in ascending order of names, the records of each subdirectory's
  qualifying files, every one with the numeric label that is the zero-based rank of the
  subdirectory's name among all subdirectory names. The rank counts every subdirectory,
  also one that contributes no record: the label goes up once per subdirectory.
\<close>

theorem numeric_label_is_sorted_rank:
  assumes root_dir: "directory_at ev images_folder = Inr root_dir"
    and names: "distinct (map dir_name (get_dirs root_dir))"
    and count: "length (get_dirs root_dir) \<le> 2 ^ 64"
  shows "get_imagenet_listing ev images_folder =
           Inr (concat (map (\<lambda>d. class_records d (class_label (dir_name d))
                                      (zero_based_rank (get_dirs root_dir) d))
                          (sort_subdirs (get_dirs root_dir))))"
proof -
  let ?s = "sort_subdirs (get_dirs root_dir)"
  have len: "length ?s = length (get_dirs root_dir)" by (simp add: sort_subdirs_def)
  have "class_records (?s ! k) (class_label (dir_name (?s ! k))) (u64 k) =
        class_records (?s ! k) (class_label (dir_name (?s ! k)))
          (zero_based_rank (get_dirs root_dir) (?s ! k))" if "k < length ?s" for k
  proof -
    from that len count have "k < 2 ^ 64" by linarith
    then have "u64 k = k" by (rule u64_id)
    moreover from that len have "zero_based_rank (get_dirs root_dir) (?s ! k) = k"
      by (simp add: rank_in_sorted [OF names])
    ultimately show ?thesis by simp
  qed
  then have "map (\<lambda>(k, d). class_records d (class_label (dir_name d)) (u64 k)) (enumerate 0 ?s) =
        map (\<lambda>d. class_records d (class_label (dir_name d)) (zero_based_rank (get_dirs root_dir) d)) ?s"
    by (rule map_enumerate_nth)
  with get_imagenet_listing_eq [OF root_dir] show ?thesis by simp
qed

theorem numeric_label_is_sorted_rank_witness:
  "directory_at example_env ''imgs'' = Inr example_root \<and>
   distinct (map dir_name (get_dirs example_root)) \<and>
   length (get_dirs example_root) \<le> 2 ^ 64 \<and>
   get_imagenet_listing example_env ''imgs'' = Inr example_listing"
proof -
  have d: "distinct (map dir_name (get_dirs example_root))"
    by (simp add: example_root_def)
  have n: "length (get_dirs example_root) \<le> 2 ^ 64"
    by (simp add: example_root_def)
  have "concat (map (\<lambda>d. class_records d (class_label (dir_name d))
                                      (zero_based_rank (get_dirs example_root) d))
                          (sort_subdirs (get_dirs example_root))) = example_listing"
    by (simp add: example_root_def example_listing_def class_records_def class_label_def
          zero_based_rank_def scanner_defs)
  with numeric_label_is_sorted_rank [OF example_root_at d n] example_root_at d n
  show ?thesis by simp
qed

text \<open>
  \<^bold>\<open>C5\<close>, as the claim states it, fails: a file named exactly \<open>.jpg\<close> ends with \<open>.jpg\<close>,
  and the scanner skips it, because the test asks for a name longer than four characters.
\<close>

theorem dot_jpg_file_skipped:
  "directory_at dot_jpg_env ''imgs'' =
     Inr (Directory ''imgs'' ''imgs'' []
            [Directory ''n001_cat'' ''imgs/n001_cat'' [dot_jpg_file] []]) \<and>
   ends_with_jpg_ci (file_name dot_jpg_file) \<and>
   get_imagenet_listing dot_jpg_env ''imgs'' = Inr []"
  by (simp add: dot_jpg_env_def dot_jpg_file_def ends_with_jpg_ci_def scanner_defs Let_def)

text \<open>
  \<^bold>\<open>C5\<close>, amended. The scan does not fail, and the files that it includes are exactly the
  files of the class subdirectories whose name is longer than four characters and ends
  with \<open>.jpg\<close> compared without regard to case, each as often as its directory lists it;
  every other file is skipped.
\<close>

theorem jpg_filter_requires_stem:
  assumes root_dir: "directory_at ev images_folder = Inr root_dir"
  shows "\<exists>results. get_imagenet_listing ev images_folder = Inr results \<and>
           mset (map filename results) =
             mset (concat (map (\<lambda>d. map file_full_name
                                  (filter (\<lambda>f. 4 < length (file_name f) \<and>
                                                ends_with_jpg_ci (file_name f))
                                     (get_files d)))
                       (get_dirs root_dir)))"
proof -
  let ?s = "sort_subdirs (get_dirs root_dir)"
  let ?q = "\<lambda>d. map file_full_name
              (filter (\<lambda>f. 4 < length (file_name f) \<and> ends_with_jpg_ci (file_name f))
                 (get_files d))"
  have names: "map filename (class_records d l n) = ?q d" for d l n
    by (simp add: class_records_def comp_def jpg_test_True_iff)
  have "map filename
          (concat (map (\<lambda>(k, d). class_records d (class_label (dir_name d)) (u64 k))
                     (enumerate 0 ?s))) =
        concat (map (\<lambda>(k, d). ?q d) (enumerate 0 ?s))"
    by (simp add: map_concat comp_def split_def names)
  also have "map (\<lambda>(k, d). ?q d) (enumerate 0 ?s) = map ?q ?s"
    by (rule map_enumerate_nth) simp
  finally have a: "map filename
          (concat (map (\<lambda>(k, d). class_records d (class_label (dir_name d)) (u64 k))
                     (enumerate 0 ?s))) = concat (map ?q ?s)" .
  have b: "mset (concat (map ?q ?s)) = mset (concat (map ?q (get_dirs root_dir)))"
    by (rule mset_concat_map_cong) (simp add: sort_subdirs_def)
  have "mset (map filename
          (concat (map (\<lambda>(k, d). class_records d (class_label (dir_name d)) (u64 k))
                     (enumerate 0 ?s)))) = mset (concat (map ?q (get_dirs root_dir)))"
    by (simp only: a b)
  with get_imagenet_listing_eq [OF root_dir] show ?thesis by blast
qed

theorem jpg_filter_requires_stem_witness:
  "directory_at example_env ''imgs'' = Inr example_root \<and>
   (\<exists>results. get_imagenet_listing example_env ''imgs'' = Inr results \<and>
      mset (map filename results) =
        mset [''imgs/n002_dog/d1.jpg'', ''imgs/n002_dog/d2.Jpg'', ''imgs/birds/b1.jpg'',
              ''imgs/n001_cat/c1.JPG'', ''imgs/n001_cat/bad.jpg''])"
proof -
  have "concat (map (\<lambda>d. map file_full_name
                                  (filter (\<lambda>f. 4 < length (file_name f) \<and>
                                                ends_with_jpg_ci (file_name f))
                                     (get_files d)))
                       (get_dirs example_root)) =
        [''imgs/n002_dog/d1.jpg'', ''imgs/n002_dog/d2.Jpg'', ''imgs/birds/b1.jpg'',
              ''imgs/n001_cat/c1.JPG'', ''imgs/n001_cat/bad.jpg'']"
    by (simp add: example_root_def ends_with_jpg_ci_def suffix_to_prefix scanner_defs)
  with jpg_filter_requires_stem [OF example_root_at] example_root_at
  show ?thesis by (simp only:)
qed

text \<open>
  \<^bold>\<open>C10.\<close> For a directory name without \<open>_\<close>, \<open>find\<close> returns \<open>npos\<close>, \<open>npos + 1\<close> wraps
  to \<open>0\<close>, and \<open>extract_desc_class\<close> returns the whole name without throwing. A scan of a
  tree that has a class directory with such a name does not fail, and every qualifying
  file of that directory has a record whose textual label is the whole name.
\<close>

theorem extract_desc_class_without_underscore:
  assumes no_underscore: "CHR ''_'' \<notin> set name"
  shows "extract_desc_class name = Inr name \<and>
         (\<forall>(ev :: env) images_folder root_dir d.
            directory_at ev images_folder = Inr root_dir \<and> d \<in> set (get_dirs root_dir) \<and>
            dir_name d = name \<longrightarrow>
            (\<exists>results. get_imagenet_listing ev images_folder = Inr results \<and>
               (\<forall>f \<in> set (get_files d). jpg_test (file_name f) = Inr True \<longrightarrow>
                  (\<exists>n. \<lparr>filename = file_full_name f, label = name, numeric_label = n\<rparr>
                        \<in> set results))))"
proof (intro conjI allI impI)
  have "find_char name (CHR ''_'') = npos"
    using no_underscore by (simp add: find_char_def find_from_absent)
  then show ex: "extract_desc_class name = Inr name"
    by (simp add: extract_desc_class_eq u64_npos_succ)
  fix ev :: env and images_folder root_dir d
  assume a: "directory_at ev images_folder = Inr root_dir \<and> d \<in> set (get_dirs root_dir) \<and> dir_name d = name"
  let ?s = "sort_subdirs (get_dirs root_dir)"
  let ?rs = "concat (map (\<lambda>(k, d). class_records d (class_label (dir_name d)) (u64 k))
                          (enumerate 0 ?s))"
  have l: "class_label (dir_name d) = name"
    using a ex by (simp add: class_label_def)
  from a have "d \<in> set ?s" by (simp add: sort_subdirs_def)
  then obtain k where k: "k < length ?s" "?s ! k = d" by (auto simp: in_set_conv_nth)
  then have "(k, d) \<in> set (enumerate 0 ?s)" by (simp add: in_set_enumerate_eq)
  then have sub: "set (class_records d name (u64 k)) \<subseteq> set ?rs"
    using l by force
  have "\<forall>f \<in> set (get_files d). jpg_test (file_name f) = Inr True \<longrightarrow>
          (\<exists>n. \<lparr>filename = file_full_name f, label = name, numeric_label = n\<rparr> \<in> set ?rs)"
  proof (intro ballI impI)
    fix f assume "f \<in> set (get_files d)" "jpg_test (file_name f) = Inr True"
    then have "\<lparr>filename = file_full_name f, label = name, numeric_label = u64 k\<rparr>
                 \<in> set (class_records d name (u64 k))"
      by (simp add: class_records_def)
    with sub show "\<exists>n. \<lparr>filename = file_full_name f, label = name, numeric_label = n\<rparr> \<in> set ?rs"
      by blast
  qed
  with get_imagenet_listing_eq [of ev images_folder root_dir] a
  show "\<exists>results. get_imagenet_listing ev images_folder = Inr results \<and>
               (\<forall>f \<in> set (get_files d). jpg_test (file_name f) = Inr True \<longrightarrow>
                  (\<exists>n. \<lparr>filename = file_full_name f, label = name, numeric_label = n\<rparr>
                        \<in> set results))"
    by simp
qed

theorem extract_desc_class_without_underscore_witness:
  "CHR ''_'' \<notin> set ''birds'' \<and> extract_desc_class ''birds'' = Inr ''birds'' \<and>
   (\<exists>results. get_imagenet_listing example_env ''imgs'' = Inr results \<and>
      (\<exists>n. \<lparr>filename = ''imgs/birds/b1.jpg'', label = ''birds'', numeric_label = n\<rparr>
            \<in> set results))"
proof -
  let ?d = "Directory ''birds'' ''imgs/birds''
              [\<lparr>file_name = ''b1.jpg'', file_full_name = ''imgs/birds/b1.jpg''\<rparr>] []"
  let ?f = "\<lparr>file_name = ''b1.jpg'', file_full_name = ''imgs/birds/b1.jpg''\<rparr>"
  have u: "CHR ''_'' \<notin> set ''birds''" by simp
  have d: "?d \<in> set (get_dirs example_root)" by (simp add: example_root_def)
  have j: "jpg_test (file_name ?f) = Inr True" by (simp add: scanner_defs)
  from extract_desc_class_without_underscore [OF u]
  have e: "extract_desc_class ''birds'' = Inr ''birds''"
    and s: "\<And>(ev :: env) images_folder root_dir d.
              directory_at ev images_folder = Inr root_dir \<and> d \<in> set (get_dirs root_dir) \<and>
              dir_name d = ''birds'' \<Longrightarrow>
              \<exists>results. get_imagenet_listing ev images_folder = Inr results \<and>
                (\<forall>f \<in> set (get_files d). jpg_test (file_name f) = Inr True \<longrightarrow>
                   (\<exists>n. \<lparr>filename = file_full_name f, label = ''birds'', numeric_label = n\<rparr>
                         \<in> set results))"
    by blast+
  from s [of example_env "''imgs''" example_root ?d] example_root_at d
  obtain results where r: "get_imagenet_listing example_env ''imgs'' = Inr results"
    and a: "\<forall>f \<in> set (get_files ?d). jpg_test (file_name f) = Inr True \<longrightarrow>
                   (\<exists>n. \<lparr>filename = file_full_name f, label = ''birds'', numeric_label = n\<rparr>
                         \<in> set results)"
    by auto
  from a j have "\<exists>n. \<lparr>filename = ''imgs/birds/b1.jpg'', label = ''birds'', numeric_label = n\<rparr>
                         \<in> set results"
    by simp
  with u e r show ?thesis by blast
qed

subsection \<open>Image loader and resizer\<close>

text \<open>
  \<^bold>\<open>C8.\<close> For a file that decodes to \<open>img\<close>: when \<open>img\<close> already has the target size,
  \<open>load_and_resize_image\<close> returns \<open>img\<close> itself, whatever \<open>resize_image\<close> would compute
  (no resampling takes place); when the size differs (for a target size that is not
  negative, and with dlib's \<open>resize_image\<close> keeping the size of its output image), it
  returns the result of \<open>resize_image\<close> with \<open>interpolate_bilinear\<close> on a \<open>rows\<close> by \<open>cols\<close>
  matrix, and that result has exactly \<open>rows\<close> rows and \<open>cols\<close> columns.
\<close>

theorem load_and_resize_image_passes_or_resizes:
  assumes decoded: "load_image ev filename' = Inr img"
  shows "(nr img = rows \<and> nc img = cols \<longrightarrow>
            (\<forall>r. load_and_resize_image (ev\<lparr>resize_image := r\<rparr>) filename' rows cols = Inr img)) \<and>
         (\<not> (nr img = rows \<and> nc img = cols) \<and> 0 \<le> rows \<and> 0 \<le> cols \<and> resize_keeps_size ev \<longrightarrow>
            (\<exists>out. load_and_resize_image ev filename' rows cols = Inr out \<and>
                   out = resize_image ev img (new_matrix rows cols) interpolate_bilinear \<and>
                   nr out = rows \<and> nc out = cols))"
  using decoded
  by (auto simp: load_and_resize_image_def assign_image_def resize_keeps_size_def new_matrix_def
        Let_def)

theorem load_and_resize_image_passes_or_resizes_witness:
  "load_image example_env ''imgs/birds/b1.jpg'' = Inr example_image \<and>
   nr example_image = 1 \<and> nc example_image = 2 \<and>
   load_and_resize_image example_env ''imgs/birds/b1.jpg'' 1 2 = Inr example_image \<and>
   resize_keeps_size example_env \<and>
   load_and_resize_image example_env ''imgs/birds/b1.jpg'' 2 2 = Inr (new_matrix 2 2) \<and>
   nr (new_matrix 2 2) = 2 \<and> nc (new_matrix 2 2) = 2"
proof -
  have l: "load_image example_env ''imgs/birds/b1.jpg'' = Inr example_image"
    by (simp add: example_env_def)
  have k: "resize_keeps_size example_env"
    by (simp add: resize_keeps_size_def example_env_def)
  have s: "nr example_image = 1 \<and> nc example_image = 2"
    by (simp add: example_image_def)
  have e: "example_env\<lparr>resize_image := resize_image example_env\<rparr> = example_env"
    by simp
  from load_and_resize_image_passes_or_resizes [OF l, of 1 2] s e
  have a: "load_and_resize_image example_env ''imgs/birds/b1.jpg'' 1 2 = Inr example_image"
    by metis
  from load_and_resize_image_passes_or_resizes [OF l, of 2 2] s k
  have b: "load_and_resize_image example_env ''imgs/birds/b1.jpg'' 2 2 =
             Inr (resize_image example_env example_image (new_matrix 2 2) interpolate_bilinear) \<and>
           nr (resize_image example_env example_image (new_matrix 2 2) interpolate_bilinear) = 2 \<and>
           nc (resize_image example_env example_image (new_matrix 2 2) interpolate_bilinear) = 2"
    by simp
  have r: "resize_image example_env example_image (new_matrix 2 2) interpolate_bilinear =
           new_matrix 2 2"
    by (simp add: example_env_def)
  from l s a k b r show ?thesis by simp
qed

subsection \<open>Dataset builder\<close>

text \<open>
  \<^bold>\<open>C9.\<close> When the scanner returns an empty sequence, \<open>create_imagenet_dataset\<close> throws
  \<open>dlib::error\<close> with the message naming the directory, and the files are what they were
  before the call: nothing is serialized.
\<close>

theorem empty_listing_fails_without_output:
  assumes "get_imagenet_listing ev images_folder = Inr []"
  shows "create_imagenet_dataset ev cd terminate_flag images_folder output_file rows cols st =
           (Inl (dlib_error (''No images found in directory: '' @ images_folder)), st)"
  using assms by (simp add: create_imagenet_dataset_def)

theorem empty_listing_fails_without_output_witness:
  "get_imagenet_listing dot_jpg_env ''imgs'' = Inr [] \<and>
   create_imagenet_dataset dot_jpg_env example_codec (\<lambda>i. False) ''imgs'' ''out.dat'' 224 224
     Map.empty =
     (Inl (dlib_error ''No images found in directory: imgs''), Map.empty)"
proof -
  have e: "get_imagenet_listing dot_jpg_env ''imgs'' = Inr []"
    by (simp add: dot_jpg_env_def dot_jpg_file_def scanner_defs Let_def)
  from empty_listing_fails_without_output [OF e, of example_codec "\<lambda>i. False" "''out.dat''" 224 224 Map.empty] e
  show ?thesis by simp
qed

text \<open>
  \<^bold>\<open>C7.\<close> From a dataset whose three sequences have the same length \<open>n\<close> (the empty
  dataset at the start of the loop): a pass of the loop whose load succeeds appends
  exactly one element to each of the three sequences, at index \<open>n\<close> in each; a pass whose
  load fails leaves the dataset as it was; and the dataset that the loop ends with has
  three sequences of equal length. The flag is arbitrary, so the loop can stop after any
  pass: the equality holds at every pass boundary and at the end.
\<close>

theorem dataset_sequences_grow_together:
  assumes "length (images ds) = n" and "length (labels ds) = n"
    and "length (numeric_labels ds) = n"
  shows "(\<forall>img. load_and_resize_image ev (filename info) rows cols = Inr img \<longrightarrow>
            images (ingest_step ev rows cols info ds) = images ds @ [img] \<and>
            labels (ingest_step ev rows cols info ds) = labels ds @ [label info] \<and>
            numeric_labels (ingest_step ev rows cols info ds) =
              numeric_labels ds @ [numeric_label info] \<and>
            images (ingest_step ev rows cols info ds) ! n = img \<and>
            labels (ingest_step ev rows cols info ds) ! n = label info \<and>
            numeric_labels (ingest_step ev rows cols info ds) ! n = numeric_label info) \<and>
         (\<forall>e. load_and_resize_image ev (filename info) rows cols = Inl e \<longrightarrow>
            ingest_step ev rows cols info ds = ds) \<and>
         length (images (ingest_loop ev terminate_flag rows cols image_listing i ds)) =
           length (labels (ingest_loop ev terminate_flag rows cols image_listing i ds)) \<and>
         length (labels (ingest_loop ev terminate_flag rows cols image_listing i ds)) =
           length (numeric_labels (ingest_loop ev terminate_flag rows cols image_listing i ds))"
proof -
  have step: "\<forall>img. load_and_resize_image ev (filename info) rows cols = Inr img \<longrightarrow>
            images (ingest_step ev rows cols info ds) = images ds @ [img] \<and>
            labels (ingest_step ev rows cols info ds) = labels ds @ [label info] \<and>
            numeric_labels (ingest_step ev rows cols info ds) =
              numeric_labels ds @ [numeric_label info] \<and>
            images (ingest_step ev rows cols info ds) ! n = img \<and>
            labels (ingest_step ev rows cols info ds) ! n = label info \<and>
            numeric_labels (ingest_step ev rows cols info ds) ! n = numeric_label info"
    using assms by (auto simp: ingest_step_def nth_append)
  have skip: "\<forall>e. load_and_resize_image ev (filename info) rows cols = Inl e \<longrightarrow>
            ingest_step ev rows cols info ds = ds"
    by (simp add: ingest_step_def)
  have "length (images ds) = length (labels ds)"
    and "length (labels ds) = length (numeric_labels ds)"
    using assms by simp_all
  from ingest_loop_lengths [OF this] step skip show ?thesis by blast
qed

theorem dataset_sequences_grow_together_witness:
  "length (images empty_dataset) = 0 \<and> length (labels empty_dataset) = 0 \<and>
   length (numeric_labels empty_dataset) = 0 \<and>
   load_and_resize_image example_env (filename (example_listing ! 0)) 1 2 = Inr example_image \<and>
   images (ingest_step example_env 1 2 (example_listing ! 0) empty_dataset) = [example_image] \<and>
   labels (ingest_step example_env 1 2 (example_listing ! 0) empty_dataset) = [''birds''] \<and>
   numeric_labels (ingest_step example_env 1 2 (example_listing ! 0) empty_dataset) = [0] \<and>
   load_and_resize_image example_env (filename (example_listing ! 2)) 1 2 = Inl image_load_error \<and>
   ingest_step example_env 1 2 (example_listing ! 2) empty_dataset = empty_dataset \<and>
   length (images (ingest_loop example_env (\<lambda>i. False) 1 2 example_listing 0 empty_dataset)) =
     length (labels (ingest_loop example_env (\<lambda>i. False) 1 2 example_listing 0 empty_dataset)) \<and>
   length (labels (ingest_loop example_env (\<lambda>i. False) 1 2 example_listing 0 empty_dataset)) =
     length (numeric_labels
       (ingest_loop example_env (\<lambda>i. False) 1 2 example_listing 0 empty_dataset))"
proof -
  have e: "length (images empty_dataset) = 0" "length (labels empty_dataset) = 0"
    "length (numeric_labels empty_dataset) = 0"
    by (simp_all add: empty_dataset_def)
  have l0: "load_and_resize_image example_env (filename (example_listing ! 0)) 1 2 =
              Inr example_image"
    by (simp add: example_listing_def example_steps)
  have l2: "load_and_resize_image example_env (filename (example_listing ! 2)) 1 2 =
              Inl image_load_error"
    by (simp add: example_listing_def example_steps)
  have i0: "label (example_listing ! 0) = ''birds''" "numeric_label (example_listing ! 0) = 0"
    by (simp_all add: example_listing_def)
  note a = dataset_sequences_grow_together [OF e, of example_env "example_listing ! 0" 1 2 "\<lambda>i. False" example_listing 0]
  note b = dataset_sequences_grow_together [OF e, of example_env "example_listing ! 2" 1 2 "\<lambda>i. False" example_listing 0]
  from a l0 i0 e
  have s0: "images (ingest_step example_env 1 2 (example_listing ! 0) empty_dataset) = [example_image]"
    "labels (ingest_step example_env 1 2 (example_listing ! 0) empty_dataset) = [''birds'']"
    "numeric_labels (ingest_step example_env 1 2 (example_listing ! 0) empty_dataset) = [0]"
    by simp_all
  from b l2 have s2: "ingest_step example_env 1 2 (example_listing ! 2) empty_dataset = empty_dataset"
    by blast
  from a have "length (images (ingest_loop example_env (\<lambda>i. False) 1 2 example_listing 0 empty_dataset)) =
     length (labels (ingest_loop example_env (\<lambda>i. False) 1 2 example_listing 0 empty_dataset))"
   and "length (labels (ingest_loop example_env (\<lambda>i. False) 1 2 example_listing 0 empty_dataset)) =
     length (numeric_labels
       (ingest_loop example_env (\<lambda>i. False) 1 2 example_listing 0 empty_dataset))"
    by blast+
  with e l0 l2 s0 s2 show ?thesis by simp
qed

text \<open>
  \<^bold>\<open>C6.\<close> When the load of the flag before pass \<open>k\<close> is the first that reads \<open>true\<close>, the
  loop stops there: the dataset is the one built from the first \<open>k\<close> records, record \<open>k\<close>
  and the later ones are not processed, and the serialization step runs on exactly that
  dataset. Where the output file can be opened, the file holds the serialized images,
  then the serialized labels, then the serialized numeric labels of that dataset; and with
  a serialization library that reads back what it wrote, reading the file returns exactly
  that dataset.
\<close>

theorem cancellation_writes_partial_dataset:
  assumes listing: "get_imagenet_listing ev images_folder = Inr image_listing"
    and during: "k < length image_listing"
    and flag: "terminate_flag k"
    and before: "\<forall>j<k. \<not> terminate_flag j"
  shows "ingest_loop ev terminate_flag rows cols image_listing 0 empty_dataset =
           ingested ev rows cols (take k image_listing) \<and>
         create_imagenet_dataset ev cd terminate_flag images_folder output_file rows cols st =
           serialize_dataset ev cd output_file (ingested ev rows cols (take k image_listing)) st \<and>
         (can_open ev output_file \<longrightarrow>
            create_imagenet_dataset ev cd terminate_flag images_folder output_file rows cols st =
              (Inr (), st(output_file \<mapsto>
                 serialize_images cd (images (ingested ev rows cols (take k image_listing))) @
                 serialize_labels cd (labels (ingested ev rows cols (take k image_listing))) @
                 serialize_numeric_labels cd
                   (numeric_labels (ingested ev rows cols (take k image_listing)))))) \<and>
         (can_open ev output_file \<and> codec_round_trips cd \<longrightarrow>
            deserialize_dataset cd
              (snd (create_imagenet_dataset ev cd terminate_flag images_folder output_file
                      rows cols st))
              output_file =
              Inr (ingested ev rows cols (take k image_listing)))"
proof -
  let ?partial = "ingested ev rows cols (take k image_listing)"
  have ne: "image_listing \<noteq> []" using during by auto
  have "ingest_loop ev terminate_flag rows cols image_listing 0 empty_dataset =
          foldl (\<lambda>dataset info. ingest_step ev rows cols info dataset) empty_dataset
            (drop 0 (take k image_listing))"
    using during flag before by (intro ingest_loop_until) auto
  then have loop: "ingest_loop ev terminate_flag rows cols image_listing 0 empty_dataset =
           ?partial"
    by (simp add: ingested_def)
  have run: "create_imagenet_dataset ev cd terminate_flag images_folder output_file rows cols st =
           serialize_dataset ev cd output_file ?partial st"
    using listing ne loop by (simp add: create_imagenet_dataset_def)
  have written: "can_open ev output_file \<longrightarrow>
            create_imagenet_dataset ev cd terminate_flag images_folder output_file rows cols st =
              (Inr (), st(output_file \<mapsto>
                 serialize_images cd (images ?partial) @ serialize_labels cd (labels ?partial) @
                 serialize_numeric_labels cd (numeric_labels ?partial)))"
    unfolding run by (simp add: serialize_dataset_def dataset_bytes_def)
  have readback: "can_open ev output_file \<and> codec_round_trips cd \<longrightarrow>
            deserialize_dataset cd
              (snd (create_imagenet_dataset ev cd terminate_flag images_folder output_file
                      rows cols st))
              output_file = Inr ?partial"
    unfolding run by (simp add: serialize_dataset_def deserialize_dataset_bytes)
  from loop run written readback show ?thesis by blast
qed

theorem cancellation_writes_partial_dataset_witness:
  "get_imagenet_listing example_env ''imgs'' = Inr example_listing \<and>
   3 < length example_listing \<and>
   can_open example_env ''out.dat'' \<and> codec_round_trips example_codec \<and>
   create_imagenet_dataset example_env example_codec (\<lambda>i. 3 \<le> i) ''imgs'' ''out.dat'' 1 2
     Map.empty =
     (Inr (), [''out.dat'' \<mapsto>
        serialize_images example_codec [example_image, example_image] @
        serialize_labels example_codec [''birds'', ''cat''] @
        serialize_numeric_labels example_codec [0, 2]]) \<and>
   deserialize_dataset example_codec
     (snd (create_imagenet_dataset example_env example_codec (\<lambda>i. 3 \<le> i) ''imgs'' ''out.dat''
             1 2 Map.empty))
     ''out.dat'' =
     Inr \<lparr>images = [example_image, example_image], labels = [''birds'', ''cat''],
          numeric_labels = [0, 2]\<rparr>"
proof -
  have k: "3 < length example_listing" by (simp add: example_listing_def)
  have f: "(\<lambda>i::nat. 3 \<le> i) 3" by simp
  have b: "\<forall>j<3. \<not> (\<lambda>i::nat. 3 \<le> i) j" by simp
  have o: "can_open example_env ''out.dat''" by (simp add: example_env_def)
  note t = cancellation_writes_partial_dataset
             [OF example_listing_run k f b, of 1 2 example_codec "''out.dat''" Map.empty]
  from t o have w: "create_imagenet_dataset example_env example_codec (\<lambda>i. 3 \<le> i) ''imgs''
      ''out.dat'' 1 2 Map.empty =
     (Inr (), [''out.dat'' \<mapsto>
        serialize_images example_codec (images (ingested example_env 1 2 (take 3 example_listing))) @
        serialize_labels example_codec (labels (ingested example_env 1 2 (take 3 example_listing))) @
        serialize_numeric_labels example_codec
          (numeric_labels (ingested example_env 1 2 (take 3 example_listing)))])"
    by blast
  from t o example_codec_round_trips
  have r: "deserialize_dataset example_codec
     (snd (create_imagenet_dataset example_env example_codec (\<lambda>i. 3 \<le> i) ''imgs'' ''out.dat''
             1 2 Map.empty))
     ''out.dat'' = Inr (ingested example_env 1 2 (take 3 example_listing))"
    by blast
  from w r example_listing_run k o example_codec_round_trips show ?thesis
    by (simp only: example_ingested imagenet_dataset.simps simp_thms)
qed

subsection \<open>Serialization and splitting\<close>

text \<open>
  \<^bold>\<open>C4.\<close> With a serialization library whose \<open>deserialize\<close> reads back what its \<open>serialize\<close>
  wrote (\<open>codec_round_trips\<close>) and an output file that can be opened: the builder's write
  puts the images, then the labels, then the numeric labels into the file, and the
  splitter's read of that file, in the same order, returns the dataset that was written:
  the same three sequences, so the same samples in the same order.
\<close>

theorem serialize_then_deserialize_dataset:
  assumes contract: "codec_round_trips cd" and writable: "can_open ev output_file"
  shows "serialize_dataset ev cd output_file dataset st =
           (Inr (), st(output_file \<mapsto>
              serialize_images cd (images dataset) @ serialize_labels cd (labels dataset) @
              serialize_numeric_labels cd (numeric_labels dataset))) \<and>
         deserialize_dataset cd (snd (serialize_dataset ev cd output_file dataset st)) output_file =
           Inr dataset"
proof -
  have w: "serialize_dataset ev cd output_file dataset st =
             (Inr (), st(output_file \<mapsto> dataset_bytes cd dataset))"
    using writable by (simp add: serialize_dataset_def)
  then have "deserialize_dataset cd (snd (serialize_dataset ev cd output_file dataset st))
               output_file = Inr dataset"
    by (simp add: deserialize_dataset_bytes [OF contract])
  with w show ?thesis by (simp add: dataset_bytes_def)
qed

theorem serialize_then_deserialize_dataset_witness:
  "codec_round_trips example_codec \<and> can_open example_env ''out.dat'' \<and>
   deserialize_dataset example_codec
     (snd (serialize_dataset example_env example_codec ''out.dat'' example_dataset Map.empty))
     ''out.dat'' = Inr example_dataset \<and>
   length (images example_dataset) = 3"
proof -
  have o: "can_open example_env ''out.dat''" by (simp add: example_env_def)
  have n: "length (images example_dataset) = 3" by (simp add: example_dataset_def)
  from serialize_then_deserialize_dataset
         [OF example_codec_round_trips o, of example_dataset Map.empty]
    example_codec_round_trips o n
  show ?thesis by blast
qed

text \<open>
  \<^bold>\<open>C2.\<close> For a file that deserializes to a dataset of \<open>N\<close> samples (as many numeric labels
  as images), a shuffle that permutes the indices \<open>0..N-1\<close>, and a test fraction whose
  split point is at most \<open>N\<close> (vectors of \<open>N\<close> elements being within \<open>max_size()\<close>):
  \<open>load_stable_imagenet_1k\<close> returns; the training and testing images are \<open>N\<close> together;
  and the training and testing labels together are, as a multiset, the numeric labels of
  the dataset.
\<close>

theorem split_is_complete:
  assumes loaded: "deserialize_dataset cd st dataset_file = Inr dataset"
    and samples: "length (numeric_labels dataset) = length (images dataset)"
    and permutation: "mset (shuffle [0 ..< length (images dataset)]) =
                      mset [0 ..< length (images dataset)]"
    and point: "split_point_of (length (images dataset)) test_fraction = Inr split_point"
    and bound: "split_point \<le> length (images dataset)"
    and room: "length (images dataset) \<le> images_max_size ms"
      "length (images dataset) \<le> labels_max_size ms"
  shows "\<exists>out. load_stable_imagenet_1k cd shuffle ms st dataset_file test_fraction = Inr out \<and>
           length (training_images out) + length (testing_images out) = length (images dataset) \<and>
           mset (training_labels out) + mset (testing_labels out) =
             mset (numeric_labels dataset)"
proof -
  let ?n = "length (images dataset)"
  let ?indices = "shuffle [0 ..< ?n]"
  let ?labels = "numeric_labels dataset"
  let ?out = "\<lparr>training_images = map (nth (images dataset)) (take split_point ?indices),
                training_labels = map (nth ?labels) (take split_point ?indices),
                testing_images = map (nth (images dataset)) (drop split_point ?indices),
                testing_labels = map (nth ?labels) (drop split_point ?indices)\<rparr>"
  have len: "length ?indices = ?n"
    using permutation by (metis mset_eq_length length_upt diff_zero)
  have run: "load_stable_imagenet_1k cd shuffle ms st dataset_file test_fraction = Inr ?out"
    by (rule load_stable_imagenet_1k_eq
          [where shuffle = shuffle, OF loaded samples permutation point bound room])
  have sizes: "length (training_images ?out) + length (testing_images ?out) = ?n"
    by (simp add: len)
  have "mset (training_labels ?out) + mset (testing_labels ?out) =
        mset (map (nth ?labels) (take split_point ?indices)) +
        mset (map (nth ?labels) (drop split_point ?indices))"
    by simp
  also have "\<dots> = mset (map (nth ?labels) ?indices)"
    by (metis append_take_drop_id map_append mset_append)
  also have "\<dots> = image_mset (nth ?labels) (mset ?indices)"
    by simp
  also have "\<dots> = image_mset (nth ?labels) (mset [0 ..< ?n])"
    by (simp only: permutation)
  also have "\<dots> = mset (map (nth ?labels) [0 ..< length ?labels])"
    by (simp add: samples)
  also have "\<dots> = mset ?labels"
    by (simp only: map_nth)
  finally have labels: "mset (training_labels ?out) + mset (testing_labels ?out) = mset ?labels" .
  from run sizes labels show ?thesis by blast
qed

theorem split_is_complete_witness:
  "deserialize_dataset example_codec [''out.dat'' \<mapsto> dataset_bytes example_codec example_dataset]
     ''out.dat'' = Inr example_dataset \<and>
   length (numeric_labels example_dataset) = length (images example_dataset) \<and>
   mset (rev [0 ..< length (images example_dataset)]) =
     mset [0 ..< length (images example_dataset)] \<and>
   split_point_of (length (images example_dataset)) (1 / 4) = Inr 2 \<and>
   2 \<le> length (images example_dataset) \<and>
   length (images example_dataset) \<le> images_max_size example_max_sizes \<and>
   length (images example_dataset) \<le> labels_max_size example_max_sizes \<and>
   load_stable_imagenet_1k example_codec rev example_max_sizes
     [''out.dat'' \<mapsto> dataset_bytes example_codec example_dataset] ''out.dat'' (1 / 4) =
     Inr \<lparr>training_images = [example_image, new_matrix 0 0], training_labels = [1, 0],
          testing_images = [example_image], testing_labels = [0]\<rparr> \<and>
   length [example_image, new_matrix 0 0] + length [example_image] =
     length (images example_dataset) \<and>
   mset [1, 0 :: nat] + mset [0] = mset (numeric_labels example_dataset)"
proof -
  let ?st = "[''out.dat'' \<mapsto> dataset_bytes example_codec example_dataset]"
  have d: "deserialize_dataset example_codec ?st ''out.dat'' = Inr example_dataset"
    by (rule deserialize_dataset_bytes [OF example_codec_round_trips])
  have n: "length (numeric_labels example_dataset) = length (images example_dataset)"
    by (simp add: example_dataset_def)
  have p: "mset (rev [0 ..< length (images example_dataset)]) =
           mset [0 ..< length (images example_dataset)]"
    by simp
  have n3: "length (images example_dataset) = 3" by (simp add: example_dataset_def)
  have s: "split_point_of (length (images example_dataset)) (1 / 4) = Inr 2"
    unfolding n3 by (rule example_split_point)
  have b: "2 \<le> length (images example_dataset)" by (simp add: n3)
  have r: "length (images example_dataset) \<le> images_max_size example_max_sizes"
    "length (images example_dataset) \<le> labels_max_size example_max_sizes"
    by (simp_all add: n3 example_max_sizes_def)
  have i: "rev [0 ..< length (images example_dataset)] = [2, 1, 0]"
    by (simp add: n3 upt_rec)
  have run: "load_stable_imagenet_1k example_codec rev example_max_sizes ?st ''out.dat'' (1 / 4) =
     Inr \<lparr>training_images = [example_image, new_matrix 0 0], training_labels = [1, 0],
          testing_images = [example_image], testing_labels = [0]\<rparr>"
    unfolding load_stable_imagenet_1k_eq [where shuffle = rev, OF d n p s b r] i
    by (simp add: example_dataset_def)
  from split_is_complete [where shuffle = rev, OF d n p s b r] run
  have "length [example_image, new_matrix 0 0] + length [example_image] =
          length (images example_dataset) \<and>
        mset [1, 0 :: nat] + mset [0] = mset (numeric_labels example_dataset)"
    by auto
  with d n p s b r run show ?thesis by blast
qed

text \<open>
  \<^bold>\<open>C3\<close>, as the claim states it, fails: the split point is computed in double arithmetic.
  For 90 samples and the test fraction \<open>0.3\<close>, \<open>1.0 - 0.3\<close> rounds down to the double below
  \<open>0.7\<close>, the product rounds to the double below \<open>63\<close>, and the cast gives \<open>62\<close>, where
  \<open>floor (90 * (1 - 0.3))\<close> is \<open>63\<close>: the test set has 28 samples, not 27.
\<close>

theorem split_point_below_floor:
  "0 \<le> double_0_3 \<and> double_0_3 \<le> 1 \<and>
   length (images ninety_samples) = 90 \<and>
   split_point_of 90 double_0_3 = Inr 62 \<and>
   \<lfloor>90 * (1 - double_0_3)\<rfloor> = 63 \<and> \<lfloor>90 * (1 - 3 / 10 :: rat)\<rfloor> = 63 \<and>
   load_stable_imagenet_1k example_codec (\<lambda>indices. indices) example_max_sizes
     [''out.dat'' \<mapsto> dataset_bytes example_codec ninety_samples] ''out.dat'' double_0_3 =
     Inr \<lparr>training_images = replicate 62 example_image, training_labels = replicate 62 0,
          testing_images = replicate 28 example_image, testing_labels = replicate 28 0\<rparr> \<and>
   90 - nat \<lfloor>90 * (1 - double_0_3)\<rfloor> = 27"
proof -
  let ?st = "[''out.dat'' \<mapsto> dataset_bytes example_codec ninety_samples]"
  have f: "0 \<le> double_0_3" "double_0_3 \<le> 1"
    by (simp_all add: double_0_3_value)
  have n: "length (images ninety_samples) = 90" by (simp add: ninety_samples_def)
  have d: "deserialize_dataset example_codec ?st ''out.dat'' = Inr ninety_samples"
    by (rule deserialize_dataset_bytes [OF example_codec_round_trips])
  have s: "length (numeric_labels ninety_samples) = length (images ninety_samples)"
    by (simp add: ninety_samples_def)
  have p: "mset ((\<lambda>indices. indices) [0 ..< length (images ninety_samples)]) =
           mset [0 ..< length (images ninety_samples)]"
    by simp
  have sp: "split_point_of (length (images ninety_samples)) double_0_3 = Inr 62"
    unfolding n by (rule ninety_split_point)
  have b: "62 \<le> length (images ninety_samples)" by (simp add: n)
  have r: "length (images ninety_samples) \<le> images_max_size example_max_sizes"
    "length (images ninety_samples) \<le> labels_max_size example_max_sizes"
    by (simp_all add: n example_max_sizes_def)
  have run: "load_stable_imagenet_1k example_codec (\<lambda>indices. indices) example_max_sizes ?st
      ''out.dat'' double_0_3 =
     Inr \<lparr>training_images = replicate 62 example_image, training_labels = replicate 62 0,
          testing_images = replicate 28 example_image, testing_labels = replicate 28 0\<rparr>"
  proof -
    have i: "images ninety_samples = replicate 90 example_image"
      "numeric_labels ninety_samples = replicate 90 0"
      by (simp_all add: ninety_samples_def)
    have k: "(62::nat) \<le> 90" "(90::nat) - 62 = 28" by simp_all
    note h = replicate_take_drop [OF k(1), of example_image]
      replicate_take_drop [OF k(1), of "0::nat"]
    show ?thesis
      unfolding load_stable_imagenet_1k_eq [where shuffle = "\<lambda>indices. indices", OF d s p sp b r]
      by (simp only: i length_replicate h k)
  qed
  have c: "90 - nat \<lfloor>90 * (1 - double_0_3)\<rfloor> = 27"
    unfolding ninety_floor by simp
  have dec: "\<lfloor>90 * (1 - 3 / 10 :: rat)\<rfloor> = 63" by simp
  from f n ninety_split_point ninety_floor dec run c show ?thesis by blast
qed

text \<open>
  \<^bold>\<open>C3\<close>, amended. For a dataset of \<open>N \<le> 2 ^ 53\<close> samples and a test fraction in \<open>[0, 1]\<close>,
  the split point is the product of \<open>N\<close> and \<open>1.0 - test_fraction\<close> in double arithmetic (the
  subtraction and the product each rounded to the nearest double), truncated; it is at
  most \<open>N\<close>; the training set has that many samples and the test set the other
  \<open>N - split_point\<close>; a test fraction \<open>0\<close> gives an empty test set and a test fraction \<open>1\<close> an
  empty training set.
\<close>

theorem split_sizes_follow_double_split_point:
  assumes loaded: "deserialize_dataset cd st dataset_file = Inr dataset"
    and samples: "length (numeric_labels dataset) = length (images dataset)"
    and permutation: "mset (shuffle [0 ..< length (images dataset)]) =
                      mset [0 ..< length (images dataset)]"
    and fraction: "0 \<le> test_fraction" "test_fraction \<le> 1"
    and size: "length (images dataset) \<le> 2 ^ 53"
    and room: "length (images dataset) \<le> images_max_size ms"
      "length (images dataset) \<le> labels_max_size ms"
  shows "\<exists>split_point out.
           split_point_of (length (images dataset)) test_fraction = Inr split_point \<and>
           split_point =
             nat \<lfloor>to_double (of_nat (length (images dataset)) * to_double (1 - test_fraction))\<rfloor> \<and>
           split_point \<le> length (images dataset) \<and>
           load_stable_imagenet_1k cd shuffle ms st dataset_file test_fraction = Inr out \<and>
           length (training_images out) = split_point \<and>
           length (testing_images out) = length (images dataset) - split_point \<and>
           (test_fraction = 0 \<longrightarrow>
              split_point = length (images dataset) \<and> testing_images out = []) \<and>
           (test_fraction = 1 \<longrightarrow> split_point = 0 \<and> training_images out = [])"
proof -
  let ?n = "length (images dataset)"
  let ?indices = "shuffle [0 ..< ?n]"
  let ?sp = "nat \<lfloor>to_double (rat_of_nat ?n * to_double (1 - test_fraction))\<rfloor>"
  let ?out = "\<lparr>training_images = map (nth (images dataset)) (take ?sp ?indices),
                training_labels = map (nth (numeric_labels dataset)) (take ?sp ?indices),
                testing_images = map (nth (images dataset)) (drop ?sp ?indices),
                testing_labels = map (nth (numeric_labels dataset)) (drop ?sp ?indices)\<rparr>"
  note sp = split_point_of_unit_interval [OF fraction size]
  have len: "length ?indices = ?n"
    using permutation by (metis mset_eq_length length_upt diff_zero)
  have run: "load_stable_imagenet_1k cd shuffle ms st dataset_file test_fraction = Inr ?out"
    by (rule load_stable_imagenet_1k_eq
          [where shuffle = shuffle, OF loaded samples permutation sp room])
  have train: "length (training_images ?out) = ?sp" using sp(2) by (simp add: len)
  have test: "length (testing_images ?out) = ?n - ?sp" by (simp add: len)
  have one: "to_double 1 = 1" using to_double_of_nat [of 1] by simp
  have zero: "to_double 0 = 0" by (simp add: to_double_def)
  have none: "test_fraction = 0 \<longrightarrow> ?sp = ?n \<and> testing_images ?out = []"
    by (simp add: one to_double_of_nat [OF size] len)
  have all: "test_fraction = 1 \<longrightarrow> ?sp = 0 \<and> training_images ?out = []"
    by (simp add: zero)
  from sp run train test none all show ?thesis by blast
qed

theorem split_sizes_follow_double_split_point_witness:
  "deserialize_dataset example_codec [''out.dat'' \<mapsto> dataset_bytes example_codec example_dataset]
     ''out.dat'' = Inr example_dataset \<and>
   length (numeric_labels example_dataset) = length (images example_dataset) \<and>
   length (images example_dataset) = 3 \<and>
   split_point_of 3 (1 / 4) = Inr 2 \<and>
   (\<exists>out. load_stable_imagenet_1k example_codec rev example_max_sizes
            [''out.dat'' \<mapsto> dataset_bytes example_codec example_dataset] ''out.dat'' (1 / 4) =
            Inr out \<and>
          length (training_images out) = 2 \<and> length (testing_images out) = 1) \<and>
   (\<exists>out. load_stable_imagenet_1k example_codec rev example_max_sizes
            [''out.dat'' \<mapsto> dataset_bytes example_codec example_dataset] ''out.dat'' 0 = Inr out \<and>
          length (training_images out) = 3 \<and> testing_images out = []) \<and>
   (\<exists>out. load_stable_imagenet_1k example_codec rev example_max_sizes
            [''out.dat'' \<mapsto> dataset_bytes example_codec example_dataset] ''out.dat'' 1 = Inr out \<and>
          training_images out = [] \<and> length (testing_images out) = 3)"
proof -
  let ?st = "[''out.dat'' \<mapsto> dataset_bytes example_codec example_dataset]"
  have d: "deserialize_dataset example_codec ?st ''out.dat'' = Inr example_dataset"
    by (rule deserialize_dataset_bytes [OF example_codec_round_trips])
  have n: "length (numeric_labels example_dataset) = length (images example_dataset)"
    by (simp add: example_dataset_def)
  have n3: "length (images example_dataset) = 3" by (simp add: example_dataset_def)
  have p: "mset (rev [0 ..< length (images example_dataset)]) =
           mset [0 ..< length (images example_dataset)]"
    by simp
  have z: "length (images example_dataset) \<le> 2 ^ 53" by (simp add: n3)
  have r: "length (images example_dataset) \<le> images_max_size example_max_sizes"
    "length (images example_dataset) \<le> labels_max_size example_max_sizes"
    by (simp_all add: n3 example_max_sizes_def)
  have q: "(0::rat) \<le> 1 / 4" "(1::rat) / 4 \<le> 1" by simp_all
  note t = split_sizes_follow_double_split_point [where shuffle = rev, OF d n p _ _ z r]
  from t [OF q] example_split_point
  have a: "\<exists>out. load_stable_imagenet_1k example_codec rev example_max_sizes ?st ''out.dat''
              (1 / 4) = Inr out \<and>
            length (training_images out) = 2 \<and> length (testing_images out) = 1"
    unfolding n3 by auto
  from t [of 0]
  have b: "\<exists>out. load_stable_imagenet_1k example_codec rev example_max_sizes ?st ''out.dat'' 0 =
              Inr out \<and> length (training_images out) = 3 \<and> testing_images out = []"
    unfolding n3 by auto
  from t [of 1]
  have c: "\<exists>out. load_stable_imagenet_1k example_codec rev example_max_sizes ?st ''out.dat'' 1 =
              Inr out \<and> training_images out = [] \<and> length (testing_images out) = 3"
    unfolding n3 by auto
  from d n n3 example_split_point a b c show ?thesis by blast
qed

end
